theory Spec2Isabelle
  imports Main
begin

section \<open>Data model of the chat hook\<close>

text \<open>
  \<^verbatim>\<open>SimpleType = string | number | boolean | object\<close>. Arrays are objects in the
  source language and \<^verbatim>\<open>toArray\<close> inspects them at run time, so they get a constructor
  of their own. Numbers are modelled by integers (fractions and NaN are left out).
\<close>

datatype simple_type =
    SString string
  | SNumber int
  | SBoolean bool
  | SArray "simple_type list"
  | SObject "(string \<times> simple_type) list"

datatype message_status = Local | Loading | Success | Error

text \<open>
  \<^verbatim>\<open>id: number | string\<close>. A numeric id is a safe integer, of magnitude below
  \<open>2^53\<close>: these are the numbers that a template literal prints in plain decimal,
  digit for digit. The type leaves out fractions, NaN and the larger numbers, which
  are printed rounded or in exponent form.
\<close>

typedef safe_integer = "{i :: int. - (2 ^ 53) < i \<and> i < 2 ^ 53}"
  by (rule exI[of _ 0]) simp

datatype ident = IdNumber safe_integer | IdString string

record message_info =
  msg_id :: ident
  message :: simple_type
  status :: message_status

section \<open>Decimal rendering of counters\<close>

text \<open>
  The template literals \<^verbatim>\<open>`msg_${idRef.current}`\<close> and \<^verbatim>\<open>`${key}_${bubbleMsgIndex}`\<close>
  print a number in decimal.
\<close>

definition digit_char :: "nat \<Rightarrow> char" where
  "digit_char d = char_of (48 + d)"

function show_nat :: "nat \<Rightarrow> string" where
  "show_nat n = (if n < 10 then [digit_char n] else show_nat (n div 10) @ [digit_char (n mod 10)])"
  by pat_completeness auto

termination
  by (relation "measure (\<lambda>n. n)") auto

declare show_nat.simps [simp del]

text \<open>A safe integer in a template literal: a minus sign when negative, then its decimal digits.\<close>

definition show_safe_integer :: "safe_integer \<Rightarrow> string" where
  "show_safe_integer n =
     (if Rep_safe_integer n < 0 then CHR ''-'' # show_nat (nat (- Rep_safe_integer n))
      else show_nat (nat (Rep_safe_integer n)))"

fun ident_to_string :: "ident \<Rightarrow> string" where
  "ident_to_string (IdNumber n) = show_safe_integer n"
| "ident_to_string (IdString s) = s"

section \<open>Configuration\<close>

datatype xagent = XAgent

datatype js_error = JsError string

type_synonym RequestPlaceholderFn = "simple_type \<Rightarrow> simple_type list \<Rightarrow> simple_type"

text \<open>
  \<^verbatim>\<open>(message, {error, messages}) => Message | Promise<Message>\<close>: the function is
  modelled by the value it finally yields; when it yields it is an event of its own
  (see \<open>FallbackResolved\<close> below). User callbacks are total and pure here.
\<close>

type_synonym RequestFallbackFn = "simple_type \<Rightarrow> js_error \<Rightarrow> simple_type list \<Rightarrow> simple_type"

text \<open>A configuration field that holds either a payload or a function (\<^verbatim>\<open>typeof x === 'function'\<close>).\<close>

datatype 'f policy = Static simple_type | Computed 'f

record default_message_info =
  d_message :: simple_type
  d_id :: "ident option"
  d_status :: "message_status option"

record config =
  agent :: "xagent option"
  defaultMessages :: "default_message_info list option"
  parser :: "(simple_type \<Rightarrow> simple_type) option"
  requestPlaceholder :: "RequestPlaceholderFn policy option"
  requestFallback :: "RequestFallbackFn policy option"

text \<open>Truthiness of a value, as \<^verbatim>\<open>if (requestPlaceholder)\<close> and \<^verbatim>\<open>if (requestFallback)\<close> test it.\<close>

fun truthy :: "simple_type \<Rightarrow> bool" where
  "truthy (SString s) = (s \<noteq> [])"
| "truthy (SNumber n) = (n \<noteq> 0)"
| "truthy (SBoolean b) = b"
| "truthy (SArray xs) = True"
| "truthy (SObject ps) = True"

fun policy_truthy :: "'f policy \<Rightarrow> bool" where
  "policy_truthy (Static v) = truthy v"
| "policy_truthy (Computed f) = True"

section \<open>The message store\<close>

text \<open>
  Modelled from the spec: \<^verbatim>\<open>useSyncState\<close> (imported from \<^verbatim>\<open>./useSyncState\<close>, whose
  source is not among the files). Section 4.1 and the design notes describe one mutable
  cell with a setter that takes a new value or a function of the old one and commits at
  once, a getter that reads the cell, and a reactive value that observers receive later.
\<close>

datatype 'a set_state_action = Value 'a | Updater "'a \<Rightarrow> 'a"

record 'a sync_state =
  current :: 'a
  observed :: 'a

text \<open>Modelled from the spec: the cell and the reactive value both start at the initial value.\<close>

definition useSyncState :: "'a \<Rightarrow> 'a sync_state" where
  "useSyncState defaultValue = \<lparr>current = defaultValue, observed = defaultValue\<rparr>"

text \<open>Modelled from the spec: the setter commits to the cell at once; observers are told later.\<close>

definition setState :: "'a set_state_action \<Rightarrow> 'a sync_state \<Rightarrow> 'a sync_state" where
  "setState action st =
     st\<lparr>current := (case action of Value v \<Rightarrow> v | Updater f \<Rightarrow> f (current st))\<rparr>"

text \<open>Modelled from the spec: the getter reads the cell.\<close>

definition getState :: "'a sync_state \<Rightarrow> 'a" where
  "getState st = current st"

text \<open>Modelled from the spec: the hosting environment hands the committed value to observers.\<close>

definition propagate :: "'a sync_state \<Rightarrow> 'a sync_state" where
  "propagate st = st\<lparr>observed := current st\<rparr>"

section \<open>State of the hook\<close>

text \<open>
  One \<open>request\<close> is the closure of one \<^verbatim>\<open>onRequest\<close> call: its message, the history
  handed to \<^verbatim>\<open>agent.request\<close> and the two closure variables. \<open>awaiting\<close> holds the
  \<^verbatim>\<open>onError\<close> calls suspended at their \<^verbatim>\<open>await\<close>, each with its request and the
  fallback payload it will resume with.
\<close>

record request =
  req_message :: simple_type
  req_messages :: "simple_type list"
  loadingMsgId :: "ident option"
  updatingMsgId :: "ident option"

record chat_state =
  store :: "message_info list sync_state"
  idRef :: nat
  requests :: "request list"
  awaiting :: "(nat \<times> simple_type) list"

definition setMessages :: "message_info list set_state_action \<Rightarrow> chat_state \<Rightarrow> chat_state" where
  "setMessages action s = s\<lparr>store := setState action (store s)\<rparr>"

definition getMessages :: "chat_state \<Rightarrow> message_info list" where
  "getMessages s = getState (store s)"

definition initial_messages :: "config \<Rightarrow> message_info list" where
  "initial_messages cfg =
     (let defaults = (case defaultMessages cfg of Some ds \<Rightarrow> ds | None \<Rightarrow> [])
      in map (\<lambda>(info, index).
           \<lparr>msg_id = (case d_id info of Some i \<Rightarrow> i
                       | None \<Rightarrow> IdString (''default_'' @ show_nat index)),
            message = d_message info,
            status = (case d_status info of Some st \<Rightarrow> st | None \<Rightarrow> Local)\<rparr>)
         (zip defaults [0..<length defaults]))"

definition useXChat :: "config \<Rightarrow> chat_state" where
  "useXChat cfg =
     \<lparr>store = useSyncState (initial_messages cfg), idRef = 0, requests = [], awaiting = []\<rparr>"

text \<open>
  \<^verbatim>\<open>idRef.current\<close> is a natural number here. A JavaScript number counts exactly up
  to \<open>2^53\<close>, which no run of the hook reaches.
\<close>

definition createMessage ::
  "simple_type \<Rightarrow> message_status \<Rightarrow> chat_state \<Rightarrow> message_info \<times> chat_state" where
  "createMessage m st s =
     (\<lparr>msg_id = IdString (''msg_'' @ show_nat (idRef s)), message = m, status = st\<rparr>,
      s\<lparr>idRef := idRef s + 1\<rparr>)"

section \<open>Display records\<close>

text \<open>\<^verbatim>\<open>Array.isArray\<close> on a payload.\<close>

fun is_array :: "simple_type \<Rightarrow> bool" where
  "is_array (SArray xs) = True"
| "is_array v = False"

definition toArray :: "simple_type \<Rightarrow> simple_type list" where
  "toArray item = (case item of SArray xs \<Rightarrow> xs | _ \<Rightarrow> [item])"

definition parsedMessages :: "config \<Rightarrow> message_info list \<Rightarrow> message_info list" where
  "parsedMessages cfg msgs =
     concat (map (\<lambda>agentMsg.
       (let rawParsedMsg = (case parser cfg of Some p \<Rightarrow> p (message agentMsg)
                            | None \<Rightarrow> message agentMsg);
            bubbleMsgs = toArray rawParsedMsg
        in map (\<lambda>(bubbleMsg, bubbleMsgIndex).
             \<lparr>msg_id = (if length bubbleMsgs > 1
                        then IdString (ident_to_string (msg_id agentMsg) @ ''_''
                                       @ show_nat bubbleMsgIndex)
                        else msg_id agentMsg),
              message = bubbleMsg,
              status = status agentMsg\<rparr>)
           (zip bubbleMsgs [0..<length bubbleMsgs]))) msgs)"

section \<open>Request history\<close>

definition getFilteredMessages :: "message_info list \<Rightarrow> simple_type list" where
  "getFilteredMessages msgs =
     map message (filter (\<lambda>info. status info \<noteq> Loading \<and> status info \<noteq> Error) msgs)"

definition getRequestMessages :: "chat_state \<Rightarrow> simple_type list" where
  "getRequestMessages s = getFilteredMessages (getMessages s)"

text \<open>The history as the specification words it: the payloads of the settled records.\<close>

fun settled_payloads :: "message_info list \<Rightarrow> simple_type list" where
  "settled_payloads [] = []"
| "settled_payloads (info # rest) =
     (if status info = Local \<or> status info = Success
      then message info # settled_payloads rest
      else settled_payloads rest)"

section \<open>The request lifecycle\<close>

text \<open>
  The updater that \<^verbatim>\<open>onRequest\<close> hands to \<^verbatim>\<open>setMessages\<close> calls \<^verbatim>\<open>createMessage\<close>
  and assigns \<^verbatim>\<open>loadingMsgId\<close>. The store applies an updater at once to the committed
  sequence, so the model reads that sequence as \<open>ori\<close>, threads the counter through the
  two \<^verbatim>\<open>createMessage\<close> calls in the source's order and commits the result. A thrown
  error is the left summand; the state beside it is the state the throw leaves behind.
\<close>

definition onRequest :: "config \<Rightarrow> simple_type \<Rightarrow> chat_state \<Rightarrow> (js_error + unit) \<times> chat_state" where
  "onRequest cfg msg s =
     (case agent cfg of
        None \<Rightarrow>
          (Inl (JsError ''If the onRequest method is used, the agent parameter is required!''), s)
      | Some a \<Rightarrow>
          (let ori = getMessages s;
               (localMsg, s1) = createMessage msg Local s;
               nextMessages = ori @ [localMsg];
               (loadingId, nextMessages2, s2) =
                 (case requestPlaceholder cfg of
                    None \<Rightarrow> (None, nextMessages, s1)
                  | Some p \<Rightarrow>
                      if policy_truthy p then
                        (let placeholderMsg =
                               (case p of
                                  Computed f \<Rightarrow> f msg (getFilteredMessages nextMessages)
                                | Static v \<Rightarrow> v);
                             (loadingMsg, s') = createMessage placeholderMsg Loading s1
                         in (Some (msg_id loadingMsg), nextMessages @ [loadingMsg], s'))
                      else (None, nextMessages, s1));
               s3 = setMessages (Value nextMessages2) s2
           in (Inr (),
               s3\<lparr>requests := requests s3 @
                  [\<lparr>req_message = msg, req_messages = getRequestMessages s3,
                    loadingMsgId = loadingId, updatingMsgId = None\<rparr>]\<rparr>)))"

text \<open>
  \<open>updateMessage r\<close> is the \<^verbatim>\<open>updateMessage\<close> closure of request \<open>r\<close>; the record it
  returns in the source is dropped by both callers and is not returned here.
\<close>

definition updateMessage :: "nat \<Rightarrow> simple_type \<Rightarrow> message_status \<Rightarrow> chat_state \<Rightarrow> chat_state" where
  "updateMessage r m st s =
     (let req = requests s ! r
      in case find (\<lambda>info. Some (msg_id info) = updatingMsgId req) (getMessages s) of
           None \<Rightarrow>
             (let (msg, s1) = createMessage m st s;
                  s2 = setMessages (Updater (\<lambda>ori.
                         filter (\<lambda>info. Some (msg_id info) \<noteq> loadingMsgId req) ori @ [msg])) s1
              in s2\<lparr>requests := (requests s2)[r := req\<lparr>updatingMsgId := Some (msg_id msg)\<rparr>]\<rparr>)
         | Some found \<Rightarrow>
             setMessages (Updater (map (\<lambda>info.
               if Some (msg_id info) = updatingMsgId req
               then info\<lparr>message := m, status := st\<rparr>
               else info))) s)"

definition onUpdate :: "nat \<Rightarrow> simple_type \<Rightarrow> chat_state \<Rightarrow> chat_state" where
  "onUpdate r m s = updateMessage r m Loading s"

definition onSuccess :: "nat \<Rightarrow> simple_type \<Rightarrow> chat_state \<Rightarrow> chat_state" where
  "onSuccess r m s = updateMessage r m Success s"

text \<open>The part of \<^verbatim>\<open>onError\<close> after the fallback payload is known.\<close>

definition onError_fallback :: "nat \<Rightarrow> simple_type \<Rightarrow> chat_state \<Rightarrow> chat_state" where
  "onError_fallback r fallbackMsg s =
     (let req = requests s ! r;
          (msg, s1) = createMessage fallbackMsg Error s
      in setMessages (Updater (\<lambda>ori.
           filter (\<lambda>info. Some (msg_id info) \<noteq> loadingMsgId req
                         \<and> Some (msg_id info) \<noteq> updatingMsgId req) ori @ [msg])) s1)"

definition onError_remove :: "nat \<Rightarrow> chat_state \<Rightarrow> chat_state" where
  "onError_remove r s =
     (let req = requests s ! r
      in setMessages (Updater (\<lambda>ori.
           filter (\<lambda>info. Some (msg_id info) \<noteq> loadingMsgId req
                         \<and> Some (msg_id info) \<noteq> updatingMsgId req) ori)) s)"

definition onError :: "config \<Rightarrow> nat \<Rightarrow> js_error \<Rightarrow> chat_state \<Rightarrow> chat_state" where
  "onError cfg r err s =
     (case requestFallback cfg of
        None \<Rightarrow> onError_remove r s
      | Some p \<Rightarrow>
          if policy_truthy p then
            (case p of
               Computed f \<Rightarrow>
                 s\<lparr>awaiting := awaiting s @
                    [(r, f (req_message (requests s ! r)) err (getRequestMessages s))]\<rparr>
             | Static v \<Rightarrow> onError_fallback r v s)
          else onError_remove r s)"

text \<open>
  What the environment can do to the hook: call \<^verbatim>\<open>onRequest\<close>, deliver one of the three
  agent events to the handlers of request \<open>r\<close>, or let the \<open>k\<close>-th suspended
  \<^verbatim>\<open>onError\<close> run on after its \<^verbatim>\<open>await\<close>. Handlers exist only for requests that were
  issued, so an event for any other index does nothing.
\<close>

datatype event =
    Request simple_type
  | OnUpdate nat simple_type
  | OnSuccess nat simple_type
  | OnError nat js_error
  | FallbackResolved nat

fun step :: "config \<Rightarrow> chat_state \<Rightarrow> event \<Rightarrow> chat_state" where
  "step cfg s (Request m) = snd (onRequest cfg m s)"
| "step cfg s (OnUpdate r m) = (if r < length (requests s) then onUpdate r m s else s)"
| "step cfg s (OnSuccess r m) = (if r < length (requests s) then onSuccess r m s else s)"
| "step cfg s (OnError r err) = (if r < length (requests s) then onError cfg r err s else s)"
| "step cfg s (FallbackResolved k) =
     (if k < length (awaiting s)
      then (let (r, fallbackMsg) = awaiting s ! k
            in onError_fallback r fallbackMsg
                 (s\<lparr>awaiting := take k (awaiting s) @ drop (Suc k) (awaiting s)\<rparr>))
      else s)"

fun run :: "config \<Rightarrow> chat_state \<Rightarrow> event list \<Rightarrow> chat_state" where
  "run cfg s [] = s"
| "run cfg s (e # es) = run cfg (step cfg s e) es"

section \<open>Generated identifiers\<close>

definition generated_id :: "nat \<Rightarrow> ident" where
  "generated_id k = IdString (''msg_'' @ show_nat k)"

definition default_id :: "nat \<Rightarrow> ident" where
  "default_id k = IdString (''default_'' @ show_nat k)"

text \<open>No record of the store carries an identifier that the counter has yet to hand out.\<close>

definition ids_fresh :: "chat_state \<Rightarrow> bool" where
  "ids_fresh s =
     (\<forall>info \<in> set (getMessages s). \<forall>k. idRef s \<le> k \<longrightarrow> msg_id info \<noteq> generated_id k)"

definition ids_distinct :: "chat_state \<Rightarrow> bool" where
  "ids_distinct s = distinct (map msg_id (getMessages s))"

text \<open>
  How one step may change the identifiers of the store: some records are dropped, the
  others keep their place and id, and the new records carry the identifiers the counter
  handed out during the step.
\<close>

definition id_step :: "chat_state \<Rightarrow> chat_state \<Rightarrow> bool" where
  "id_step s s' =
     (idRef s \<le> idRef s' \<and>
      (\<exists>P. map msg_id (getMessages s') =
             map msg_id (filter P (getMessages s)) @ map generated_id [idRef s..<idRef s']))"

section \<open>The agent contract and the direction of a status\<close>




text \<open>The statuses a record of a given status may show at a later snapshot.\<close>

fun status_may_become :: "message_status \<Rightarrow> message_status \<Rightarrow> bool" where
  "status_may_become Local st = (st = Local)"
| "status_may_become Loading st = (st = Loading \<or> st = Success \<or> st = Error)"
| "status_may_become Success st = (st = Success)"
| "status_may_become Error st = (st = Error)"

text \<open>
  What the requests know about the store: every live-reply id was handed out by the
  counter, no two requests share one, and the record a request without a terminal event
  points at is loading.
\<close>

definition tracked_below :: "chat_state \<Rightarrow> bool" where
  "tracked_below s =
     (\<forall>r < length (requests s). \<forall>i. updatingMsgId (requests s ! r) = Some i \<longrightarrow>
        (\<exists>k < idRef s. i = generated_id k))"

definition tracked_apart :: "chat_state \<Rightarrow> bool" where
  "tracked_apart s =
     (\<forall>r < length (requests s). \<forall>r' < length (requests s). r \<noteq> r' \<longrightarrow>
        updatingMsgId (requests s ! r) = None
        \<or> updatingMsgId (requests s ! r) \<noteq> updatingMsgId (requests s ! r'))"

definition live_loading :: "nat set \<Rightarrow> chat_state \<Rightarrow> bool" where
  "live_loading done s =
     (\<forall>r < length (requests s). r \<notin> done \<longrightarrow>
        (\<forall>x \<in> set (getMessages s).
           Some (msg_id x) = updatingMsgId (requests s ! r) \<longrightarrow> status x = Loading))"

definition live_ok :: "nat set \<Rightarrow> chat_state \<Rightarrow> bool" where
  "live_ok done s =
     (ids_distinct s \<and> ids_fresh s \<and> tracked_below s \<and> tracked_apart s \<and> live_loading done s)"

text \<open>No record of \<open>s\<close> shows, under the same id, a status in \<open>s'\<close> that it may not reach.\<close>

definition status_forward :: "chat_state \<Rightarrow> chat_state \<Rightarrow> bool" where
  "status_forward s s' =
     (\<forall>x \<in> set (getMessages s). \<forall>y \<in> set (getMessages s').
        msg_id x = msg_id y \<longrightarrow> status_may_become (status x) (status y))"

section \<open>Example configurations\<close>

definition cfg_plain :: config where
  "cfg_plain = \<lparr>agent = Some XAgent, defaultMessages = None, parser = None,
      requestPlaceholder = None, requestFallback = None\<rparr>"

definition cfg_no_agent :: config where
  "cfg_no_agent = \<lparr>agent = None, defaultMessages = None, parser = None,
      requestPlaceholder = Some (Static (SString ''...'')), requestFallback = None\<rparr>"

definition cfg_falsy :: config where
  "cfg_falsy = \<lparr>agent = Some XAgent, defaultMessages = None, parser = None,
      requestPlaceholder = Some (Static (SString [])),
      requestFallback = Some (Static (SNumber 0))\<rparr>"

definition array_record :: message_info where
  "array_record = \<lparr>msg_id = IdString ''msg_0'',
      message = SArray [SString ''a'', SString ''b''], status = Local\<rparr>"

definition cfg_stream :: config where
  "cfg_stream = \<lparr>agent = Some XAgent,
      defaultMessages = Some [\<lparr>d_message = SString ''Welcome'', d_id = None, d_status = None\<rparr>],
      parser = None,
      requestPlaceholder = Some (Static (SString ''Waiting...'')), requestFallback = None\<rparr>"

definition cfg_fallback :: config where
  "cfg_fallback = \<lparr>agent = Some XAgent,
      defaultMessages = Some [\<lparr>d_message = SString ''Welcome'', d_id = None, d_status = None\<rparr>],
      parser = None,
      requestPlaceholder = Some (Static (SString ''Waiting...'')),
      requestFallback = Some (Static (SString ''Sorry''))\<rparr>"

definition cfg_empty_fallback :: config where
  "cfg_empty_fallback = \<lparr>agent = Some XAgent,
      defaultMessages = Some [\<lparr>d_message = SString ''Welcome'', d_id = None, d_status = None\<rparr>],
      parser = None,
      requestPlaceholder = Some (Static (SString ''Waiting...'')),
      requestFallback = Some (Static (SString []))\<rparr>"

definition cfg_clash :: config where
  "cfg_clash = \<lparr>agent = Some XAgent,
      defaultMessages = Some [\<lparr>d_message = SString ''Welcome'', d_id = Some (IdString ''msg_0''),
                               d_status = None\<rparr>],
      parser = None, requestPlaceholder = None, requestFallback = None\<rparr>"

definition cfg_taken :: config where
  "cfg_taken = \<lparr>agent = Some XAgent,
      defaultMessages = Some [\<lparr>d_message = SString ''Welcome'', d_id = Some (IdString ''msg_1''),
                               d_status = None\<rparr>],
      parser = None,
      requestPlaceholder = Some (Static (SString ''Waiting...'')), requestFallback = None\<rparr>"

definition cfg_taken_fallback :: config where
  "cfg_taken_fallback = \<lparr>agent = Some XAgent,
      defaultMessages = Some [\<lparr>d_message = SString ''Welcome'', d_id = Some (IdString ''msg_1''),
                               d_status = None\<rparr>],
      parser = None,
      requestPlaceholder = Some (Static (SString ''Waiting...'')),
      requestFallback = Some (Static (SString ''Sorry''))\<rparr>"


section \<open>Basic facts\<close>

lemma status_settled_iff:
  "(st \<noteq> Loading \<and> st \<noteq> Error) = (st = Local \<or> st = Success)"
  by (cases st) simp_all

lemma digit_char_inj:
  assumes "a < 10" and "b < 10" and "digit_char a = digit_char b"
  shows "a = b"
proof -
  have "of_char (char_of (48 + a) :: char) = (of_char (char_of (48 + b) :: char) :: nat)"
    using assms(3) by (simp add: digit_char_def)
  then have "(48 + a) mod 256 = (48 + b) mod 256"
    by (simp only: of_char_of)
  with assms(1,2) show ?thesis by simp
qed

lemma show_nat_nonempty: "show_nat n \<noteq> []"
  by (subst show_nat.simps) simp

lemma show_nat_inj: "show_nat m = show_nat n \<Longrightarrow> m = n"
proof (induction m arbitrary: n rule: show_nat.induct)
  case (1 m)
  show ?case
  proof (cases "m < 10")
    case True
    note m = this
    show ?thesis
    proof (cases "n < 10")
      case True
      with m "1.prems" show ?thesis
        by (simp add: show_nat.simps[of m] show_nat.simps[of n] digit_char_inj)
    next
      case False
      with m "1.prems" show_nat_nonempty[of "n div 10"] show ?thesis
        by (simp add: show_nat.simps[of m] show_nat.simps[of n])
    qed
  next
    case False
    note m = this
    show ?thesis
    proof (cases "n < 10")
      case True
      with m "1.prems" show_nat_nonempty[of "m div 10"] show ?thesis
        by (simp add: show_nat.simps[of m] show_nat.simps[of n])
    next
      case False
      with m "1.prems" have e: "show_nat (m div 10) = show_nat (n div 10)"
        and d: "digit_char (m mod 10) = digit_char (n mod 10)"
        by (simp_all add: show_nat.simps[of m] show_nat.simps[of n])
      from "1.IH"[OF m e] have "m div 10 = n div 10" .
      moreover from d have "m mod 10 = n mod 10"
        by (auto intro: digit_char_inj)
      ultimately show ?thesis
        by (metis div_mult_mod_eq)
    qed
  qed
qed

lemma generated_id_eq_iff [simp]: "(generated_id j = generated_id k) = (j = k)"
  by (auto simp: generated_id_def dest: show_nat_inj)

lemma default_id_eq_iff [simp]: "(default_id j = default_id k) = (j = k)"
  by (auto simp: default_id_def dest: show_nat_inj)

lemma default_id_not_generated [simp]: "default_id j \<noteq> generated_id k"
  by (simp add: default_id_def generated_id_def)

lemma getMessages_setMessages [simp]:
  "getMessages (setMessages action s) =
     (case action of Value v \<Rightarrow> v | Updater f \<Rightarrow> f (getMessages s))"
  by (simp add: getMessages_def setMessages_def getState_def setState_def
        split: set_state_action.split)

lemma setMessages_fields [simp]:
  "idRef (setMessages action s) = idRef s"
  "requests (setMessages action s) = requests s"
  "awaiting (setMessages action s) = awaiting s"
  by (simp_all add: setMessages_def)

lemma getMessages_fields [simp]:
  "getMessages (s\<lparr>idRef := n\<rparr>) = getMessages s"
  "getMessages (s\<lparr>requests := rs\<rparr>) = getMessages s"
  "getMessages (s\<lparr>awaiting := aw\<rparr>) = getMessages s"
  by (simp_all add: getMessages_def)

lemma createMessage_simps [simp]:
  "fst (createMessage m st s) = \<lparr>msg_id = generated_id (idRef s), message = m, status = st\<rparr>"
  "snd (createMessage m st s) = s\<lparr>idRef := Suc (idRef s)\<rparr>"
  by (simp_all add: createMessage_def generated_id_def)

lemma useXChat_simps [simp]:
  "getMessages (useXChat cfg) = initial_messages cfg"
  "idRef (useXChat cfg) = 0"
  "requests (useXChat cfg) = []"
  "awaiting (useXChat cfg) = []"
  by (simp_all add: useXChat_def getMessages_def getState_def useSyncState_def)

lemma find_never [simp]: "find (\<lambda>x. False) xs = None"
  by (induction xs) simp_all

lemma show_nat_digits:
  "show_nat 0 = ''0''" "show_nat 1 = ''1''" "show_nat 2 = ''2''" "show_nat 3 = ''3''"
  "show_nat (Suc 0) = ''1''" "show_nat (Suc (Suc 0)) = ''2''"
  "show_nat (Suc (Suc (Suc 0))) = ''3''"
  by code_simp+

lemma getFilteredMessages_settled: "getFilteredMessages msgs = settled_payloads msgs"
  by (induction msgs) (simp_all add: getFilteredMessages_def status_settled_iff)

lemma falsy_iff: "(\<not> truthy v) = (v = SString [] \<or> v = SNumber 0 \<or> v = SBoolean False)"
  by (cases v) auto

lemma toArray_single: "\<not> is_array v \<Longrightarrow> toArray v = [v]"
  by (cases v) (simp_all add: toArray_def)

section \<open>Effects of the handlers on the fields of the state\<close>

lemma onRequest_no_placeholder:
  assumes "agent cfg = Some a"
    and "requestPlaceholder cfg = None \<or> (\<exists>p. requestPlaceholder cfg = Some p \<and> \<not> policy_truthy p)"
  shows "getMessages (snd (onRequest cfg m s)) =
           getMessages s @ [\<lparr>msg_id = generated_id (idRef s), message = m, status = Local\<rparr>]"
    and "idRef (snd (onRequest cfg m s)) = Suc (idRef s)"
    and "length (requests (snd (onRequest cfg m s))) = Suc (length (requests s))"
    and "k < length (requests s) \<Longrightarrow> requests (snd (onRequest cfg m s)) ! k = requests s ! k"
    and "loadingMsgId (requests (snd (onRequest cfg m s)) ! length (requests s)) = None"
    and "updatingMsgId (requests (snd (onRequest cfg m s)) ! length (requests s)) = None"
    and "awaiting (snd (onRequest cfg m s)) = awaiting s"
  using assms by (auto simp add: onRequest_def Let_def split_def nth_append)

lemma onRequest_placeholder:
  assumes "agent cfg = Some a"
    and "requestPlaceholder cfg = Some p" and "policy_truthy p"
  shows "getMessages (snd (onRequest cfg m s)) =
           getMessages s @ [\<lparr>msg_id = generated_id (idRef s), message = m, status = Local\<rparr>,
             \<lparr>msg_id = generated_id (Suc (idRef s)),
              message = (case p of Computed f \<Rightarrow> f m (getFilteredMessages (getMessages s
                   @ [\<lparr>msg_id = generated_id (idRef s), message = m, status = Local\<rparr>]))
                 | Static v \<Rightarrow> v),
              status = Loading\<rparr>]"
    and "idRef (snd (onRequest cfg m s)) = Suc (Suc (idRef s))"
    and "length (requests (snd (onRequest cfg m s))) = Suc (length (requests s))"
    and "k < length (requests s) \<Longrightarrow> requests (snd (onRequest cfg m s)) ! k = requests s ! k"
    and "loadingMsgId (requests (snd (onRequest cfg m s)) ! length (requests s))
           = Some (generated_id (Suc (idRef s)))"
    and "updatingMsgId (requests (snd (onRequest cfg m s)) ! length (requests s)) = None"
    and "awaiting (snd (onRequest cfg m s)) = awaiting s"
  using assms by (auto simp add: onRequest_def Let_def split_def nth_append split: policy.splits)

lemma updateMessage_create:
  assumes "\<forall>info \<in> set (getMessages s). Some (msg_id info) \<noteq> updatingMsgId (requests s ! r)"
  shows "getMessages (updateMessage r m st s) =
           filter (\<lambda>info. Some (msg_id info) \<noteq> loadingMsgId (requests s ! r)) (getMessages s)
           @ [\<lparr>msg_id = generated_id (idRef s), message = m, status = st\<rparr>]"
    and "idRef (updateMessage r m st s) = Suc (idRef s)"
    and "requests (updateMessage r m st s) =
           (requests s)[r := (requests s ! r)\<lparr>updatingMsgId := Some (generated_id (idRef s))\<rparr>]"
    and "awaiting (updateMessage r m st s) = awaiting s"
proof -
  from assms have "find (\<lambda>info. Some (msg_id info) = updatingMsgId (requests s ! r)) (getMessages s) = None"
    by (simp add: find_None_iff)
  then show "getMessages (updateMessage r m st s) =
           filter (\<lambda>info. Some (msg_id info) \<noteq> loadingMsgId (requests s ! r)) (getMessages s)
           @ [\<lparr>msg_id = generated_id (idRef s), message = m, status = st\<rparr>]"
    and "idRef (updateMessage r m st s) = Suc (idRef s)"
    and "requests (updateMessage r m st s) =
           (requests s)[r := (requests s ! r)\<lparr>updatingMsgId := Some (generated_id (idRef s))\<rparr>]"
    and "awaiting (updateMessage r m st s) = awaiting s"
    by (simp_all add: updateMessage_def Let_def split_def)
qed

lemma updateMessage_map:
  assumes "\<exists>info \<in> set (getMessages s). Some (msg_id info) = updatingMsgId (requests s ! r)"
  shows "getMessages (updateMessage r m st s) =
           map (\<lambda>info. if Some (msg_id info) = updatingMsgId (requests s ! r)
                        then info\<lparr>message := m, status := st\<rparr> else info) (getMessages s)"
    and "idRef (updateMessage r m st s) = idRef s"
    and "requests (updateMessage r m st s) = requests s"
    and "awaiting (updateMessage r m st s) = awaiting s"
proof -
  from assms obtain found where
    "find (\<lambda>info. Some (msg_id info) = updatingMsgId (requests s ! r)) (getMessages s) = Some found"
    by (cases "find (\<lambda>info. Some (msg_id info) = updatingMsgId (requests s ! r)) (getMessages s)")
       (auto simp: find_None_iff)
  then show "getMessages (updateMessage r m st s) =
           map (\<lambda>info. if Some (msg_id info) = updatingMsgId (requests s ! r)
                        then info\<lparr>message := m, status := st\<rparr> else info) (getMessages s)"
    and "idRef (updateMessage r m st s) = idRef s"
    and "requests (updateMessage r m st s) = requests s"
    and "awaiting (updateMessage r m st s) = awaiting s"
    by (simp_all add: updateMessage_def Let_def)
qed

lemma onError_remove_fields:
  shows "getMessages (onError_remove r s) =
           filter (\<lambda>info. Some (msg_id info) \<noteq> loadingMsgId (requests s ! r)
                          \<and> Some (msg_id info) \<noteq> updatingMsgId (requests s ! r)) (getMessages s)"
    and "idRef (onError_remove r s) = idRef s"
    and "requests (onError_remove r s) = requests s"
    and "awaiting (onError_remove r s) = awaiting s"
  by (simp_all add: onError_remove_def Let_def)

lemma onError_fallback_fields:
  shows "getMessages (onError_fallback r v s) =
           filter (\<lambda>info. Some (msg_id info) \<noteq> loadingMsgId (requests s ! r)
                          \<and> Some (msg_id info) \<noteq> updatingMsgId (requests s ! r)) (getMessages s)
           @ [\<lparr>msg_id = generated_id (idRef s), message = v, status = Error\<rparr>]"
    and "idRef (onError_fallback r v s) = Suc (idRef s)"
    and "requests (onError_fallback r v s) = requests s"
    and "awaiting (onError_fallback r v s) = awaiting s"
  by (simp_all add: onError_fallback_def Let_def split_def)

lemma filter_keep_all: "(\<And>x. x \<in> set xs \<Longrightarrow> P x) \<Longrightarrow> filter P xs = xs"
  by (induction xs) simp_all

lemma map_keep_all: "(\<And>x. x \<in> set xs \<Longrightarrow> f x = x) \<Longrightarrow> map f xs = xs"
  by (induction xs) simp_all

lemma after_request:
  assumes "agent cfg = Some a"
  shows "\<exists>ph. getMessages (snd (onRequest cfg m s)) =
              getMessages s @ [\<lparr>msg_id = generated_id (idRef s), message = m, status = Local\<rparr>] @ ph
          \<and> ((ph = [] \<and> loadingMsgId (requests (snd (onRequest cfg m s)) ! length (requests s)) = None) \<or>
             (\<exists>pm. ph = [\<lparr>msg_id = generated_id (Suc (idRef s)), message = pm, status = Loading\<rparr>]
                \<and> loadingMsgId (requests (snd (onRequest cfg m s)) ! length (requests s))
                    = Some (generated_id (Suc (idRef s)))))
          \<and> updatingMsgId (requests (snd (onRequest cfg m s)) ! length (requests s)) = None
          \<and> idRef (snd (onRequest cfg m s)) = Suc (idRef s) + length ph
          \<and> length (requests (snd (onRequest cfg m s))) = Suc (length (requests s))"
proof (cases "\<exists>p. requestPlaceholder cfg = Some p \<and> policy_truthy p")
  case True
  then obtain p where p: "requestPlaceholder cfg = Some p" "policy_truthy p" by blast
  note f = onRequest_placeholder[OF assms p, where m=m and s=s]
  show ?thesis
    by (rule exI[of _ "[\<lparr>msg_id = generated_id (Suc (idRef s)),
              message = (case p of Computed f \<Rightarrow> f m (getFilteredMessages (getMessages s
                   @ [\<lparr>msg_id = generated_id (idRef s), message = m, status = Local\<rparr>]))
                 | Static v \<Rightarrow> v),
              status = Loading\<rparr>]"])
       (simp add: f)
next
  case False
  then have "requestPlaceholder cfg = None \<or> (\<exists>p. requestPlaceholder cfg = Some p \<and> \<not> policy_truthy p)"
    by (cases "requestPlaceholder cfg") auto
  note f = onRequest_no_placeholder[OF assms this, where m=m and s=s]
  show ?thesis
    by (rule exI[of _ "[]"]) (simp add: f)
qed

section \<open>Seeding the store\<close>

lemma initial_messages_default_ids:
  assumes "defaultMessages cfg = Some ds" and "\<forall>d \<in> set ds. d_id d = None"
  shows "map msg_id (initial_messages cfg) = map default_id [0..<length ds]"
proof -
  have "map msg_id (initial_messages cfg) =
          map (\<lambda>(info, index). case d_id info of Some i \<Rightarrow> i | None \<Rightarrow> default_id index)
            (zip ds [0..<length ds])"
    by (simp add: initial_messages_def assms(1) default_id_def split_def comp_def
          split: option.split)
  also have "\<dots> = map (\<lambda>(info, index). default_id index) (zip ds [0..<length ds])"
    using assms(2) by (intro map_cong refl) (auto dest: set_zip_leftD)
  also have "\<dots> = map (default_id \<circ> snd) (zip ds [0..<length ds])"
    by (simp add: split_def comp_def)
  also have "\<dots> = map default_id (map snd (zip ds [0..<length ds]))"
    by (simp only: map_map)
  also have "\<dots> = map default_id [0..<length ds]"
    by (simp only: map_snd_zip length_upt diff_zero)
  finally show ?thesis .
qed

lemma useXChat_default_ids_fresh:
  assumes "defaultMessages cfg = None \<or> (\<exists>ds. defaultMessages cfg = Some ds \<and> (\<forall>d \<in> set ds. d_id d = None))"
  shows "ids_fresh (useXChat cfg)" and "ids_distinct (useXChat cfg)"
proof -
  from assms obtain ds :: "default_message_info list" where ids: "map msg_id (initial_messages cfg) = map default_id [0..<length ds]"
  proof
    assume "defaultMessages cfg = None"
    then have "map msg_id (initial_messages cfg) = map default_id [0..<length ([] :: default_message_info list)]"
      by (simp add: initial_messages_def)
    then show ?thesis by (rule that)
  next
    assume "\<exists>ds. defaultMessages cfg = Some ds \<and> (\<forall>d \<in> set ds. d_id d = None)"
    then show ?thesis using initial_messages_default_ids that by blast
  qed
  have "\<forall>i \<in> set (map msg_id (initial_messages cfg)). \<forall>k. i \<noteq> generated_id k"
    unfolding ids by auto
  then show "ids_fresh (useXChat cfg)"
    by (simp add: ids_fresh_def)
  show "ids_distinct (useXChat cfg)"
    by (simp add: ids_distinct_def ids distinct_map inj_on_def)
qed

lemma generated_id_literals:
  "generated_id 0 = IdString ''msg_0''" "generated_id (Suc 0) = IdString ''msg_1''"
  "generated_id (Suc (Suc 0)) = IdString ''msg_2''"
  "generated_id (Suc (Suc (Suc 0))) = IdString ''msg_3''"
  "default_id 0 = IdString ''default_0''"
  by (simp_all add: generated_id_def default_id_def show_nat_digits)

lemma example_seed:
  "initial_messages cfg_stream =
     [\<lparr>msg_id = IdString ''default_0'', message = SString ''Welcome'', status = Local\<rparr>]"
  "initial_messages cfg_fallback =
     [\<lparr>msg_id = IdString ''default_0'', message = SString ''Welcome'', status = Local\<rparr>]"
  by (simp_all add: initial_messages_def cfg_stream_def cfg_fallback_def show_nat_digits)

lemma example_fresh: "ids_fresh (useXChat cfg_stream)" "ids_fresh (useXChat cfg_fallback)"
  by (rule useXChat_default_ids_fresh; simp add: cfg_stream_def cfg_fallback_def)+

section \<open>Identifiers along a run\<close>

lemma id_step_refl: "id_step s s"
  unfolding id_step_def by (auto intro: exI[of _ "\<lambda>_. True"])

lemma id_step_awaiting [simp]: "id_step s (s'\<lparr>awaiting := aw\<rparr>) = id_step s s'"
  by (simp add: id_step_def)

lemma id_stepI_filter:
  assumes "getMessages s' = filter P (getMessages s)" and "idRef s' = idRef s"
  shows "id_step s s'"
  unfolding id_step_def using assms by auto

lemma id_stepI_append1:
  assumes "getMessages s' = filter P (getMessages s) @ [\<lparr>msg_id = generated_id (idRef s), message = m, status = st\<rparr>]"
    and "idRef s' = Suc (idRef s)"
  shows "id_step s s'"
  unfolding id_step_def using assms by auto

lemma id_stepI_map:
  assumes "getMessages s' = map f (getMessages s)" and "\<And>x. msg_id (f x) = msg_id x"
    and "idRef s' = idRef s"
  shows "id_step s s'"
  unfolding id_step_def using assms by (auto intro!: exI[of _ "\<lambda>_. True"])

lemma updateMessage_id_step: "id_step s (updateMessage r m st s)"
proof (cases "\<exists>info \<in> set (getMessages s). Some (msg_id info) = updatingMsgId (requests s ! r)")
  case True
  show ?thesis
    by (rule id_stepI_map[OF updateMessage_map(1)[OF True] _ updateMessage_map(2)[OF True]]) simp
next
  case False
  then have none: "\<forall>info \<in> set (getMessages s). Some (msg_id info) \<noteq> updatingMsgId (requests s ! r)"
    by blast
  show ?thesis
    by (rule id_stepI_append1[OF updateMessage_create(1)[OF none] updateMessage_create(2)[OF none]])
qed

lemma onError_fallback_id_step: "id_step s (onError_fallback r v s)"
  by (rule id_stepI_append1[OF onError_fallback_fields(1) onError_fallback_fields(2)])

lemma onError_remove_id_step: "id_step s (onError_remove r s)"
  by (rule id_stepI_filter[OF onError_remove_fields(1) onError_remove_fields(2)])

lemma onError_id_step: "id_step s (onError cfg r err s)"
  by (auto simp add: onError_def onError_fallback_id_step onError_remove_id_step id_step_refl
        split: option.split policy.split)

lemma onRequest_id_step: "id_step s (snd (onRequest cfg m s))"
proof (cases "agent cfg")
  case None
  then show ?thesis by (simp add: onRequest_def id_step_refl)
next
  case (Some a)
  show ?thesis
  proof (cases "\<exists>p. requestPlaceholder cfg = Some p \<and> policy_truthy p")
    case True
    then obtain p where p: "requestPlaceholder cfg = Some p" "policy_truthy p" by blast
    note f = onRequest_placeholder[OF Some p, where m=m and s=s]
    have "[idRef s..<Suc (Suc (idRef s))] = [idRef s, Suc (idRef s)]"
      by (simp add: upt_rec)
    then show ?thesis
      unfolding id_step_def by (auto simp add: f(1) f(2) intro!: exI[of _ "\<lambda>_. True"])
  next
    case False
    then have "requestPlaceholder cfg = None \<or> (\<exists>p. requestPlaceholder cfg = Some p \<and> \<not> policy_truthy p)"
      by (cases "requestPlaceholder cfg") auto
    note f = onRequest_no_placeholder[OF Some this, where m=m and s=s]
    show ?thesis
      unfolding id_step_def by (auto simp add: f(1) f(2) intro!: exI[of _ "\<lambda>_. True"])
  qed
qed

lemma step_id_step: "id_step s (step cfg s e)"
proof (cases e)
  case (FallbackResolved k)
  show ?thesis
  proof (cases "k < length (awaiting s)")
    case True
    obtain r v where rv: "awaiting s ! k = (r, v)" by (cases "awaiting s ! k")
    let ?s' = "s\<lparr>awaiting := take k (awaiting s) @ drop (Suc k) (awaiting s)\<rparr>"
    have "id_step ?s' (onError_fallback r v ?s')" by (rule onError_fallback_id_step)
    then have "id_step s (onError_fallback r v ?s')"
      by (simp add: id_step_def)
    then show ?thesis using True by (simp add: FallbackResolved rv)
  next
    case False
    then show ?thesis by (simp add: FallbackResolved id_step_refl)
  qed
qed (simp_all add: onRequest_id_step onUpdate_def onSuccess_def updateMessage_id_step
       onError_id_step id_step_refl)

lemma id_step_preserves:
  assumes st: "id_step s s'" and d: "ids_distinct s" and f: "ids_fresh s"
  shows "ids_distinct s'" and "ids_fresh s'"
proof -
  from st obtain P where le: "idRef s \<le> idRef s'"
    and ids: "map msg_id (getMessages s') =
              map msg_id (filter P (getMessages s)) @ map generated_id [idRef s..<idRef s']"
    unfolding id_step_def by blast
  have old: "\<forall>i \<in> set (map msg_id (filter P (getMessages s))). \<forall>k. idRef s \<le> k \<longrightarrow> i \<noteq> generated_id k"
    using f by (auto simp: ids_fresh_def)
  have "distinct (map msg_id (filter P (getMessages s)))"
    using d by (simp add: ids_distinct_def distinct_map_filter)
  moreover have "distinct (map generated_id [idRef s..<idRef s'])"
    by (simp add: distinct_map inj_on_def)
  moreover have "set (map msg_id (filter P (getMessages s))) \<inter> set (map generated_id [idRef s..<idRef s']) = {}"
    using old by fastforce
  ultimately show "ids_distinct s'"
    unfolding ids_distinct_def ids by (simp only: distinct_append)
  have "\<forall>i \<in> set (map msg_id (getMessages s')). \<forall>k. idRef s' \<le> k \<longrightarrow> i \<noteq> generated_id k"
  proof (intro ballI allI impI)
    fix i k
    assume i: "i \<in> set (map msg_id (getMessages s'))" and k: "idRef s' \<le> k"
    from i consider "i \<in> set (map msg_id (filter P (getMessages s)))"
      | j where "i = generated_id j" "j < idRef s'"
      unfolding ids by auto
    then show "i \<noteq> generated_id k"
    proof cases
      case 1
      from le k have "idRef s \<le> k" by simp
      with old 1 show ?thesis by blast
    next
      case 2
      with k show ?thesis by simp
    qed
  qed
  then show "ids_fresh s'"
    by (simp add: ids_fresh_def)
qed

lemma id_step_origin:
  assumes "id_step s s'" and "y \<in> set (getMessages s')"
  shows "(\<exists>x \<in> set (getMessages s). msg_id x = msg_id y)
         \<or> (\<exists>k. msg_id y = generated_id k \<and> idRef s \<le> k \<and> k < idRef s')"
proof -
  from assms(1) obtain P where
    ids: "map msg_id (getMessages s') =
              map msg_id (filter P (getMessages s)) @ map generated_id [idRef s..<idRef s']"
    unfolding id_step_def by blast
  from assms(2) have "msg_id y \<in> set (map msg_id (getMessages s'))" by simp
  then show ?thesis unfolding ids by auto
qed

lemma run_ids:
  assumes "ids_distinct s" and "ids_fresh s"
  shows "ids_distinct (run cfg s evs) \<and> ids_fresh (run cfg s evs) \<and> idRef s \<le> idRef (run cfg s evs)
         \<and> (\<forall>y \<in> set (getMessages (run cfg s evs)).
               (\<exists>x \<in> set (getMessages s). msg_id x = msg_id y)
             \<or> (\<exists>k. msg_id y = generated_id k \<and> idRef s \<le> k \<and> k < idRef (run cfg s evs)))"
  using assms
proof (induction evs arbitrary: s)
  case Nil
  then show ?case by auto
next
  case (Cons e evs)
  let ?s' = "step cfg s e"
  note st = step_id_step[of s cfg e]
  note p = id_step_preserves[OF st Cons.prems]
  note ih = Cons.IH[OF p]
  have le: "idRef s \<le> idRef ?s'" using st by (simp add: id_step_def)
  have "(\<exists>x \<in> set (getMessages s). msg_id x = msg_id y)
             \<or> (\<exists>k. msg_id y = generated_id k \<and> idRef s \<le> k \<and> k < idRef (run cfg ?s' evs))"
    if y: "y \<in> set (getMessages (run cfg ?s' evs))" for y
  proof -
    from ih y consider x where "x \<in> set (getMessages ?s')" "msg_id x = msg_id y"
      | k where "msg_id y = generated_id k" "idRef ?s' \<le> k" "k < idRef (run cfg ?s' evs)"
      by blast
    then show ?thesis
    proof cases
      case 1
      from id_step_origin[OF st 1(1)] ih show ?thesis
        unfolding 1(2) by (meson less_le_trans)
    next
      case 2
      with le show ?thesis by (meson le_trans)
    qed
  qed
  with ih le show ?case by (simp del: step.simps)
qed


lemma id_step_fresh:
  assumes st: "id_step s s'" and f: "ids_fresh s"
  shows "ids_fresh s'"
proof -
  from st obtain P where le: "idRef s \<le> idRef s'"
    and ids: "map msg_id (getMessages s') =
              map msg_id (filter P (getMessages s)) @ map generated_id [idRef s..<idRef s']"
    unfolding id_step_def by blast
  have "\<forall>i \<in> set (map msg_id (getMessages s')). \<forall>k. idRef s' \<le> k \<longrightarrow> i \<noteq> generated_id k"
  proof (intro ballI allI impI)
    fix i k
    assume i: "i \<in> set (map msg_id (getMessages s'))" and k: "idRef s' \<le> k"
    from i consider x where "x \<in> set (getMessages s)" "i = msg_id x"
      | j where "i = generated_id j" "j < idRef s'"
      unfolding ids by auto
    then show "i \<noteq> generated_id k"
    proof cases
      case 1
      from le k have "idRef s \<le> k" by simp
      with f 1 show ?thesis by (simp add: ids_fresh_def)
    next
      case 2
      with k show ?thesis by simp
    qed
  qed
  then show ?thesis by (simp add: ids_fresh_def)
qed

lemma run_fresh: "ids_fresh s \<Longrightarrow> ids_fresh (run cfg s evs)"
proof (induction evs arbitrary: s)
  case Nil
  then show ?case by simp
next
  case (Cons e evs)
  from id_step_fresh[OF step_id_step Cons.prems] have "ids_fresh (step cfg s e)" .
  from Cons.IH[OF this] show ?case by simp
qed

lemma filter_overwritten:
  "filter (\<lambda>info. msg_id info \<noteq> i)
     (map (\<lambda>info. if Some (msg_id info) = Some i then info\<lparr>message := m, status := st\<rparr> else info) xs)
   = filter (\<lambda>info. msg_id info \<noteq> i) xs"
  by (induction xs) simp_all

lemma first_event_any:
  assumes st: "getMessages t = old @ [\<lparr>msg_id = generated_id n, message = m, status = Local\<rparr>] @ ph"
    and ph: "(ph = [] \<and> loadingMsgId (requests t ! r) = None) \<or>
             (\<exists>pm. ph = [\<lparr>msg_id = generated_id (Suc n), message = pm, status = Loading\<rparr>]
                   \<and> loadingMsgId (requests t ! r) = Some (generated_id (Suc n)))"
    and upd: "updatingMsgId (requests t ! r) = None"
  shows "getMessages (updateMessage r u st' t) =
           filter (\<lambda>info. Some (msg_id info) \<noteq> loadingMsgId (requests t ! r)) old
           @ [\<lparr>msg_id = generated_id n, message = m, status = Local\<rparr>,
              \<lparr>msg_id = generated_id (idRef t), message = u, status = st'\<rparr>]"
    and "idRef (updateMessage r u st' t) = Suc (idRef t)"
    and "requests (updateMessage r u st' t) =
           (requests t)[r := (requests t ! r)\<lparr>updatingMsgId := Some (generated_id (idRef t))\<rparr>]"
    and "awaiting (updateMessage r u st' t) = awaiting t"
proof -
  have none: "\<forall>info \<in> set (getMessages t). Some (msg_id info) \<noteq> updatingMsgId (requests t ! r)"
    by (simp add: upd)
  show "getMessages (updateMessage r u st' t) =
           filter (\<lambda>info. Some (msg_id info) \<noteq> loadingMsgId (requests t ! r)) old
           @ [\<lparr>msg_id = generated_id n, message = m, status = Local\<rparr>,
              \<lparr>msg_id = generated_id (idRef t), message = u, status = st'\<rparr>]"
    using ph by (auto simp add: updateMessage_create(1)[OF none] st)
  show "idRef (updateMessage r u st' t) = Suc (idRef t)"
    by (rule updateMessage_create(2)[OF none])
  show "requests (updateMessage r u st' t) =
           (requests t)[r := (requests t ! r)\<lparr>updatingMsgId := Some (generated_id (idRef t))\<rparr>]"
    by (rule updateMessage_create(3)[OF none])
  show "awaiting (updateMessage r u st' t) = awaiting t"
    by (rule updateMessage_create(4)[OF none])
qed

lemma later_event_any:
  assumes st: "getMessages t = base @ [\<lparr>msg_id = live, message = u, status = st0\<rparr>]"
    and upd: "updatingMsgId (requests t ! r) = Some live"
  shows "getMessages (updateMessage r u' st' t) =
           map (\<lambda>info. if Some (msg_id info) = Some live
                        then info\<lparr>message := u', status := st'\<rparr> else info) base
           @ [\<lparr>msg_id = live, message = u', status = st'\<rparr>]"
    and "idRef (updateMessage r u' st' t) = idRef t"
    and "requests (updateMessage r u' st' t) = requests t"
    and "awaiting (updateMessage r u' st' t) = awaiting t"
proof -
  have ex: "\<exists>info \<in> set (getMessages t). Some (msg_id info) = updatingMsgId (requests t ! r)"
    by (simp add: upd st)
  show "getMessages (updateMessage r u' st' t) =
           map (\<lambda>info. if Some (msg_id info) = Some live
                        then info\<lparr>message := u', status := st'\<rparr> else info) base
           @ [\<lparr>msg_id = live, message = u', status = st'\<rparr>]"
    by (simp add: updateMessage_map(1)[OF ex] st upd)
  show "idRef (updateMessage r u' st' t) = idRef t"
    by (rule updateMessage_map(2)[OF ex])
  show "requests (updateMessage r u' st' t) = requests t"
    by (rule updateMessage_map(3)[OF ex])
  show "awaiting (updateMessage r u' st' t) = awaiting t"
    by (rule updateMessage_map(4)[OF ex])
qed

lemma updates_any:
  assumes r: "r < length (requests t)"
    and st: "getMessages t = base @ [\<lparr>msg_id = live, message = u, status = Loading\<rparr>]"
    and upd: "updatingMsgId (requests t ! r) = Some live"
  shows "\<exists>base'. getMessages (run cfg t (map (OnUpdate r) us)) =
                  base' @ [\<lparr>msg_id = live, message = last (u # us), status = Loading\<rparr>]
           \<and> filter (\<lambda>info. msg_id info \<noteq> live) base' = filter (\<lambda>info. msg_id info \<noteq> live) base
           \<and> idRef (run cfg t (map (OnUpdate r) us)) = idRef t
           \<and> requests (run cfg t (map (OnUpdate r) us)) = requests t
           \<and> awaiting (run cfg t (map (OnUpdate r) us)) = awaiting t"
  using r st upd
proof (induction us arbitrary: t u base)
  case Nil
  then show ?case by simp
next
  case (Cons u' us)
  let ?t' = "updateMessage r u' Loading t"
  let ?base' = "map (\<lambda>info. if Some (msg_id info) = Some live
                        then info\<lparr>message := u', status := Loading\<rparr> else info) base"
  note le = later_event_any[OF Cons.prems(2) Cons.prems(3), of u' Loading]
  have r': "r < length (requests ?t')" using Cons.prems(1) by (simp add: le(3))
  have upd': "updatingMsgId (requests ?t' ! r) = Some live"
    using Cons.prems(3) by (simp add: le(3))
  from Cons.IH[OF r' le(1) upd'] obtain base'' where
    ih: "getMessages (run cfg ?t' (map (OnUpdate r) us)) =
           base'' @ [\<lparr>msg_id = live, message = last (u' # us), status = Loading\<rparr>]"
       "filter (\<lambda>info. msg_id info \<noteq> live) base'' = filter (\<lambda>info. msg_id info \<noteq> live) ?base'"
       "idRef (run cfg ?t' (map (OnUpdate r) us)) = idRef ?t'"
       "requests (run cfg ?t' (map (OnUpdate r) us)) = requests ?t'"
       "awaiting (run cfg ?t' (map (OnUpdate r) us)) = awaiting ?t'"
    by blast
  have "filter (\<lambda>info. msg_id info \<noteq> live) base'' = filter (\<lambda>info. msg_id info \<noteq> live) base"
    unfolding ih(2) by (rule filter_overwritten)
  with ih Cons.prems(1) show ?case
    by (intro exI[of _ base'']) (simp add: onUpdate_def le)
qed

lemma terminal_filter_any:
  fixes cfg s m us
  defines "r \<equiv> length (requests s)"
  defines "s1 \<equiv> snd (onRequest cfg m s)"
  defines "s2 \<equiv> run cfg s1 (map (OnUpdate r) us)"
  defines "keep \<equiv> \<lambda>info. Some (msg_id info) \<noteq> loadingMsgId (requests s2 ! r)
                       \<and> Some (msg_id info) \<noteq> updatingMsgId (requests s2 ! r)"
  assumes agent: "agent cfg = Some a"
  shows "filter keep (getMessages s2) =
           filter keep (getMessages s)
           @ [\<lparr>msg_id = generated_id (idRef s), message = m, status = Local\<rparr>]"
    and "r < length (requests s2)"
    and "\<And>x st. keep \<lparr>msg_id = generated_id (idRef s2), message = x, status = st\<rparr>"
    and "loadingMsgId (requests s2 ! r) = loadingMsgId (requests s1 ! r)"
    and "updatingMsgId (requests s2 ! r) =
           (if us = [] then None else Some (generated_id (idRef s1)))"
    and "loadingMsgId (requests s1 ! r) = None
         \<or> loadingMsgId (requests s1 ! r) = Some (generated_id (Suc (idRef s)))"
    and "idRef s < idRef s1" and "idRef s1 \<le> idRef s2"
proof -
  let ?n = "idRef s"
  let ?local = "\<lparr>msg_id = generated_id ?n, message = m, status = Local\<rparr>"
  from after_request[OF agent, where s=s and m=m] obtain ph where
    st1: "getMessages s1 = getMessages s @ [?local] @ ph"
    and ph1: "(ph = [] \<and> loadingMsgId (requests s1 ! r) = None) \<or>
             (\<exists>pm. ph = [\<lparr>msg_id = generated_id (Suc ?n), message = pm, status = Loading\<rparr>]
                \<and> loadingMsgId (requests s1 ! r) = Some (generated_id (Suc ?n)))"
    and upd1: "updatingMsgId (requests s1 ! r) = None"
    and id1: "idRef s1 = Suc ?n + length ph"
    and len1: "length (requests s1) = Suc r"
    unfolding r_def s1_def by blast
  show lo1: "loadingMsgId (requests s1 ! r) = None
         \<or> loadingMsgId (requests s1 ! r) = Some (generated_id (Suc ?n))"
    using ph1 by auto
  show lt: "idRef s < idRef s1" by (simp add: id1)
  have all: "filter keep (getMessages s2) = filter keep (getMessages s) @ [?local]
      \<and> r < length (requests s2)
      \<and> loadingMsgId (requests s2 ! r) = loadingMsgId (requests s1 ! r)
      \<and> updatingMsgId (requests s2 ! r) = (if us = [] then None else Some (generated_id (idRef s1)))
      \<and> idRef s1 \<le> idRef s2"
  proof (cases us)
    case Nil
    then have s2: "s2 = s1" by (simp add: s2_def)
    have "filter keep ph = []"
      using ph1 by (auto simp add: keep_def s2)
    moreover have "keep ?local"
      using ph1 by (auto simp add: keep_def s2 upd1)
    ultimately have "filter keep (getMessages s1) = filter keep (getMessages s) @ [?local]"
      by (simp add: st1)
    then show ?thesis
      by (simp add: s2 len1 upd1 Nil)
  next
    case (Cons u us')
    let ?t = "updateMessage r u Loading s1"
    let ?live = "generated_id (idRef s1)"
    let ?keepL = "\<lambda>info. Some (msg_id info) \<noteq> loadingMsgId (requests s1 ! r)"
    let ?base = "filter ?keepL (getMessages s) @ [?local]"
    note fe = first_event_any[OF st1 ph1 upd1, of u Loading]
    have st_t: "getMessages ?t = ?base @ [\<lparr>msg_id = ?live, message = u, status = Loading\<rparr>]"
      by (simp add: fe(1))
    have rt: "r < length (requests ?t)" by (simp add: fe(3) len1)
    have upd: "updatingMsgId (requests ?t ! r) = Some ?live"
      by (simp add: fe(3) len1)
    have lo: "loadingMsgId (requests ?t ! r) = loadingMsgId (requests s1 ! r)"
      by (simp add: fe(3) len1)
    have run_eq: "s2 = run cfg ?t (map (OnUpdate r) us')"
      by (simp add: s2_def Cons len1 onUpdate_def)
    from updates_any[OF rt st_t upd, of cfg us'] obtain base' where
      b: "getMessages s2 = base' @ [\<lparr>msg_id = ?live, message = last (u # us'), status = Loading\<rparr>]"
         "filter (\<lambda>info. msg_id info \<noteq> ?live) base' = filter (\<lambda>info. msg_id info \<noteq> ?live) ?base"
         "idRef s2 = idRef ?t" "requests s2 = requests ?t"
      unfolding run_eq by blast
    have L2: "loadingMsgId (requests s2 ! r) = loadingMsgId (requests s1 ! r)"
      by (simp add: b(4) lo)
    have U2: "updatingMsgId (requests s2 ! r) = Some ?live"
      by (simp add: b(4) upd)
    have keep_eq: "keep = (\<lambda>info. ?keepL info \<and> msg_id info \<noteq> ?live)"
      by (auto simp add: keep_def L2 U2 fun_eq_iff)
    have split: "filter keep xs = filter ?keepL (filter (\<lambda>info. msg_id info \<noteq> ?live) xs)" for xs
      unfolding keep_eq by (simp add: conj_commute)
    have kl: "keep ?local"
      using lo1 lt unfolding keep_eq by auto
    have "filter keep (getMessages s2) = filter keep base'"
      unfolding b(1) by (simp add: keep_eq)
    also have "\<dots> = filter keep ?base"
      unfolding split b(2) ..
    also have "\<dots> = filter keep (getMessages s) @ [?local]"
    proof -
      have "filter keep (filter ?keepL xs) = filter keep xs" for xs
        unfolding keep_eq by (induction xs) auto
      with kl show ?thesis by simp
    qed
    finally have "filter keep (getMessages s2) = filter keep (getMessages s) @ [?local]" .
    moreover have "r < length (requests s2)" by (simp add: b(4) rt)
    moreover have "idRef s1 \<le> idRef s2" by (simp add: b(3) fe(2))
    ultimately show ?thesis
      using L2 U2 by (simp add: Cons)
  qed
  then show "filter keep (getMessages s2) = filter keep (getMessages s) @ [?local]"
    and r2: "r < length (requests s2)"
    and L: "loadingMsgId (requests s2 ! r) = loadingMsgId (requests s1 ! r)"
    and U: "updatingMsgId (requests s2 ! r) = (if us = [] then None else Some (generated_id (idRef s1)))"
    and le: "idRef s1 \<le> idRef s2"
    by blast+
  show "keep \<lparr>msg_id = generated_id (idRef s2), message = x, status = st\<rparr>" for x st
  proof -
    have "loadingMsgId (requests s1 ! r) \<noteq> None \<Longrightarrow> idRef s2 \<noteq> Suc ?n"
      using ph1 id1 le by auto
    moreover have "us \<noteq> [] \<Longrightarrow> idRef s2 \<noteq> idRef s1"
    proof -
      assume "us \<noteq> []"
      then obtain u us' where us: "us = u # us'" by (cases us) auto
      let ?t = "updateMessage r u Loading s1"
      have "idRef s1 < idRef ?t"
        using first_event_any(2)[OF st1 ph1 upd1, of u Loading] by simp
      moreover have "idRef ?t \<le> idRef s2"
      proof -
        have "s2 = run cfg ?t (map (OnUpdate r) us')"
          by (simp add: s2_def us len1 onUpdate_def)
        moreover have "idRef t \<le> idRef (run cfg t es)" for t es
          using step_id_step[of _ cfg] by (induction es arbitrary: t) (auto simp: id_step_def intro: le_trans simp del: step.simps)
        ultimately show ?thesis by simp
      qed
      ultimately show ?thesis by simp
    qed
    ultimately show ?thesis
      using lo1 by (auto simp add: keep_def L U)
  qed
qed

section \<open>Statuses along a run that keeps the agent contract\<close>

lemma status_may_become_refl [simp]: "status_may_become st st"
  by (cases st) simp_all













lemma awaiting_irrelevant [simp]:
  "live_ok done (s\<lparr>awaiting := aw\<rparr>) = live_ok done s"
  "status_forward s (s'\<lparr>awaiting := aw\<rparr>) = status_forward s s'"
  "status_forward (s\<lparr>awaiting := aw\<rparr>) s' = status_forward s s'"
  by (simp_all add: live_ok_def ids_distinct_def ids_fresh_def tracked_below_def
        tracked_apart_def live_loading_def status_forward_def)








section \<open>The filtered history\<close>

text \<open>
  Claim C5. For every store content, \<^verbatim>\<open>getFilteredMessages\<close> (and \<^verbatim>\<open>getRequestMessages\<close>
  on the committed store) returns exactly the payloads of the records whose status is
  local or success, in their original order: each record contributes its payload when
  its status is local or success and nothing when it is loading or error.
\<close>

theorem filtered_history_settled_only:
  "getFilteredMessages msgs = settled_payloads msgs
   \<and> getRequestMessages s = settled_payloads (getMessages s)
   \<and> getFilteredMessages (before @ [info] @ after) =
       getFilteredMessages before
       @ (if status info = Local \<or> status info = Success then [message info] else [])
       @ getFilteredMessages after"
  by (simp add: getRequestMessages_def getFilteredMessages_settled[symmetric])
     (auto simp add: getFilteredMessages_def status_settled_iff)

section \<open>Display records under the identity parser\<close>

text \<open>
  Claim C6, as stated, at a store whose one payload is an array: with no parser (and
  with the identity parser) \<^verbatim>\<open>toArray\<close> takes the payload itself for the list of display
  messages, so one stored record yields two display records with suffixed ids.
\<close>

theorem identity_parser_counterexample:
  "parsedMessages cfg_plain [array_record] =
     [\<lparr>msg_id = IdString ''msg_0_0'', message = SString ''a'', status = Local\<rparr>,
      \<lparr>msg_id = IdString ''msg_0_1'', message = SString ''b'', status = Local\<rparr>]
   \<and> length (parsedMessages cfg_plain [array_record]) \<noteq> length [array_record]
   \<and> parsedMessages (cfg_plain\<lparr>parser := Some (\<lambda>x. x)\<rparr>) [array_record] \<noteq> [array_record]"
  by (simp add: parsedMessages_def cfg_plain_def array_record_def toArray_def show_nat_digits
       upt_rec[of 0] upt_rec[of 1] upt_rec[of 2])

text \<open>
  Claim C6, amended. When the parser is absent or the identity function and no stored
  payload is an array, the display records are the stored records: same count, same
  order, same id, payload and status.
\<close>

theorem identity_parser_roundtrip:
  assumes "parser cfg = None \<or> (\<exists>p. parser cfg = Some p \<and> (\<forall>x. p x = x))"
    and "\<forall>info \<in> set msgs. \<not> is_array (message info)"
  shows "parsedMessages cfg msgs = msgs"
  using assms(2)
proof (induction msgs)
  case Nil
  show ?case by (simp add: parsedMessages_def)
next
  case (Cons info rest)
  from assms(1)
  have raw: "(case parser cfg of Some p \<Rightarrow> p (message info) | None \<Rightarrow> message info)
             = message info"
    by auto
  from Cons.prems have "toArray (message info) = [message info]"
    by (simp add: toArray_single)
  with raw Cons show ?case
    by (simp add: parsedMessages_def)
qed

theorem identity_parser_roundtrip_witness:
  "parsedMessages cfg_plain
     [\<lparr>msg_id = IdString ''default_0'', message = SString ''hello'', status = Local\<rparr>,
      \<lparr>msg_id = IdNumber (Abs_safe_integer 7), message = SNumber 0, status = Error\<rparr>] =
     [\<lparr>msg_id = IdString ''default_0'', message = SString ''hello'', status = Local\<rparr>,
      \<lparr>msg_id = IdNumber (Abs_safe_integer 7), message = SNumber 0, status = Error\<rparr>]"
  by (rule identity_parser_roundtrip) (simp_all add: cfg_plain_def)

section \<open>The missing agent\<close>

text \<open>
  Claim C7. \<^verbatim>\<open>onRequest\<close> throws exactly when no agent is configured, and a call that
  throws leaves the whole state, the store with it, as it was.
\<close>

theorem onRequest_throws_iff_no_agent:
  "((\<exists>e. fst (onRequest cfg m s) = Inl e) = (agent cfg = None))
   \<and> (\<forall>e. fst (onRequest cfg m s) = Inl e \<longrightarrow> snd (onRequest cfg m s) = s)"
  by (auto simp: onRequest_def Let_def split: option.splits prod.splits)

theorem onRequest_throws_iff_no_agent_witness:
  "fst (onRequest cfg_no_agent (SString ''hi'') (useXChat cfg_no_agent))
      = Inl (JsError ''If the onRequest method is used, the agent parameter is required!'')
   \<and> snd (onRequest cfg_no_agent (SString ''hi'') (useXChat cfg_no_agent))
      = useXChat cfg_no_agent"
  using onRequest_throws_iff_no_agent[of cfg_no_agent "SString ''hi''" "useXChat cfg_no_agent"]
  by (simp add: onRequest_def cfg_no_agent_def)

section \<open>Reading the store after writing it\<close>

text \<open>
  Claim C9. Right after the setter, given a new sequence or an updater, the getter
  returns the newly committed sequence, while the value that observers last received
  is still the old one; propagation then hands observers the value the getter already
  returns. Stated for the store cell and for the message store of the hook.
\<close>

theorem read_your_own_writes:
  "getState (setState action st) =
     (case action of Value v \<Rightarrow> v | Updater f \<Rightarrow> f (getState st))
   \<and> observed (setState action st) = observed st
   \<and> getMessages (setMessages act s) =
     (case act of Value v \<Rightarrow> v | Updater f \<Rightarrow> f (getMessages s))
   \<and> observed (store (setMessages act s)) = observed (store s)
   \<and> observed (propagate (setState action st)) = getState (setState action st)"
  by (simp add: getState_def setState_def setMessages_def getMessages_def propagate_def
        split: set_state_action.split)

section \<open>Falsy placeholder and fallback payloads\<close>

text \<open>
  Claim C10. The falsy payloads are the empty string, 0 and false. With such a payload
  as \<^verbatim>\<open>requestPlaceholder\<close>, \<^verbatim>\<open>onRequest\<close> does what it does with no placeholder
  configured: with an agent it appends the local record and nothing else. With such a
  payload as \<^verbatim>\<open>requestFallback\<close>, \<^verbatim>\<open>onError\<close> does what it does with no fallback
  configured: it only removes the placeholder and live records and appends nothing.
\<close>

theorem falsy_policies_ignored:
  "((\<not> truthy v) = (v = SString [] \<or> v = SNumber 0 \<or> v = SBoolean False))
   \<and> (requestPlaceholder cfg = Some (Static v) \<and> \<not> truthy v \<longrightarrow>
        onRequest cfg m s = onRequest (cfg\<lparr>requestPlaceholder := None\<rparr>) m s
        \<and> (agent cfg \<noteq> None \<longrightarrow>
             getMessages (snd (onRequest cfg m s)) =
               getMessages s @ [\<lparr>msg_id = generated_id (idRef s), message = m, status = Local\<rparr>]))
   \<and> (requestFallback cfg = Some (Static w) \<and> \<not> truthy w \<longrightarrow>
        onError cfg r err s = onError (cfg\<lparr>requestFallback := None\<rparr>) r err s
        \<and> onError cfg r err s = onError_remove r s
        \<and> getMessages (onError cfg r err s) =
            filter (\<lambda>info. Some (msg_id info) \<noteq> loadingMsgId (requests s ! r)
                          \<and> Some (msg_id info) \<noteq> updatingMsgId (requests s ! r))
              (getMessages s))"
proof (intro conjI)
  show "(\<not> truthy v) = (v = SString [] \<or> v = SNumber 0 \<or> v = SBoolean False)"
    by (rule falsy_iff)
  show "requestPlaceholder cfg = Some (Static v) \<and> \<not> truthy v \<longrightarrow>
        onRequest cfg m s = onRequest (cfg\<lparr>requestPlaceholder := None\<rparr>) m s
        \<and> (agent cfg \<noteq> None \<longrightarrow>
             getMessages (snd (onRequest cfg m s)) =
               getMessages s @ [\<lparr>msg_id = generated_id (idRef s), message = m, status = Local\<rparr>])"
    by (cases "agent cfg") (simp_all add: onRequest_def Let_def split_def)
  show "requestFallback cfg = Some (Static w) \<and> \<not> truthy w \<longrightarrow>
        onError cfg r err s = onError (cfg\<lparr>requestFallback := None\<rparr>) r err s
        \<and> onError cfg r err s = onError_remove r s
        \<and> getMessages (onError cfg r err s) =
            filter (\<lambda>info. Some (msg_id info) \<noteq> loadingMsgId (requests s ! r)
                          \<and> Some (msg_id info) \<noteq> updatingMsgId (requests s ! r))
              (getMessages s)"
    by (simp add: onError_def onError_remove_def Let_def)
qed

theorem falsy_policies_ignored_witness:
  "onRequest cfg_falsy (SString ''hi'') (useXChat cfg_falsy)
     = onRequest (cfg_falsy\<lparr>requestPlaceholder := None\<rparr>) (SString ''hi'') (useXChat cfg_falsy)
   \<and> getMessages (snd (onRequest cfg_falsy (SString ''hi'') (useXChat cfg_falsy)))
     = [\<lparr>msg_id = generated_id 0, message = SString ''hi'', status = Local\<rparr>]
   \<and> onError cfg_falsy 0 (JsError ''down'') (snd (onRequest cfg_falsy (SString ''hi'') (useXChat cfg_falsy)))
     = onError_remove 0 (snd (onRequest cfg_falsy (SString ''hi'') (useXChat cfg_falsy)))"
proof -
  have cfg: "requestPlaceholder cfg_falsy = Some (Static (SString []))"
    "requestFallback cfg_falsy = Some (Static (SNumber 0))"
    "agent cfg_falsy \<noteq> None" "initial_messages cfg_falsy = []"
    by (simp_all add: cfg_falsy_def initial_messages_def)
  have falsy: "\<not> truthy (SString [])" "\<not> truthy (SNumber 0)"
    by simp_all
  let ?m = "SString ''hi''"
  let ?s0 = "useXChat cfg_falsy"
  let ?s1 = "snd (onRequest cfg_falsy ?m ?s0)"
  from falsy_policies_ignored[of "SString []" cfg_falsy ?m ?s0 "SNumber 0" 0 "JsError ''down''"]
  have a: "onRequest cfg_falsy ?m ?s0 = onRequest (cfg_falsy\<lparr>requestPlaceholder := None\<rparr>) ?m ?s0"
    and b: "getMessages ?s1 = getMessages ?s0
              @ [\<lparr>msg_id = generated_id (idRef ?s0), message = ?m, status = Local\<rparr>]"
    using cfg falsy by blast+
  from falsy_policies_ignored[of "SString []" cfg_falsy ?m ?s1 "SNumber 0" 0 "JsError ''down''"]
  have c: "onError cfg_falsy 0 (JsError ''down'') ?s1 = onError_remove 0 ?s1"
    using cfg falsy by blast
  from b have b': "getMessages ?s1 = [\<lparr>msg_id = generated_id 0, message = ?m, status = Local\<rparr>]"
    by (simp add: cfg)
  from a b' c show ?thesis
    by (intro conjI)
qed

section \<open>A failed request without a fallback\<close>

text \<open>
  Claim C3, as stated, at a seed that names the id \<^verbatim>\<open>msg_1\<close>, with a placeholder and no
  fallback: the placeholder of the first request gets the id \<^verbatim>\<open>msg_1\<close> too, and
  \<^verbatim>\<open>onError\<close>, which filters by id, removes the seeded record along with it. The store
  ends with the local record alone, not with the pre-request content and the local record.
\<close>

theorem no_fallback_counterexample:
  "getMessages (useXChat cfg_taken) =
     [\<lparr>msg_id = IdString ''msg_1'', message = SString ''Welcome'', status = Local\<rparr>]
   \<and> getMessages (step cfg_taken
        (run cfg_taken (step cfg_taken (useXChat cfg_taken) (Request (SString ''hi''))) [])
        (OnError 0 (JsError ''down'')))
     = [\<lparr>msg_id = IdString ''msg_0'', message = SString ''hi'', status = Local\<rparr>]
   \<and> getMessages (step cfg_taken
        (run cfg_taken (step cfg_taken (useXChat cfg_taken) (Request (SString ''hi''))) [])
        (OnError 0 (JsError ''down'')))
     \<noteq> getMessages (useXChat cfg_taken)
       @ [\<lparr>msg_id = IdString ''msg_0'', message = SString ''hi'', status = Local\<rparr>]"
  by (simp add: cfg_taken_def onRequest_def onError_def onError_remove_def Let_def
        split_def initial_messages_def generated_id_literals)

text \<open>
  Claim C3, amended. With an agent and no fallback configured, after \<^verbatim>\<open>onRequest\<close> (with
  or without a placeholder), any number of \<^verbatim>\<open>onUpdate\<close> events of that request and then
  \<^verbatim>\<open>onError\<close>, the store is the pre-request content without the records that carry
  the id of this request's placeholder or live-reply record, followed by the one local
  record of the submitted message. So the store is exactly the pre-request content and
  the local record if and only if no pre-request record carries such an id, which is
  the case whenever the store holds no id the counter has yet to hand out. Placeholder
  and live record are gone, and no loading or error record of this request remains.
\<close>

theorem no_fallback_error_leaves_local_only:
  assumes agent: "agent cfg = Some a" and nofb: "requestFallback cfg = None"
  shows "(let r = length (requests s);
              s2 = run cfg (step cfg s (Request m)) (map (OnUpdate r) us);
              s3 = step cfg s2 (OnError r err);
              local = \<lparr>msg_id = generated_id (idRef s), message = m, status = Local\<rparr>;
              untouched = (\<lambda>info. Some (msg_id info) \<noteq> loadingMsgId (requests s2 ! r)
                                  \<and> Some (msg_id info) \<noteq> updatingMsgId (requests s2 ! r))
          in getMessages s3 = filter untouched (getMessages s) @ [local]
           \<and> ((getMessages s3 = getMessages s @ [local])
                = (\<forall>info \<in> set (getMessages s). untouched info))
           \<and> (ids_fresh s \<longrightarrow> getMessages s3 = getMessages s @ [local]))"
proof -
  let ?r = "length (requests s)"
  let ?s2 = "run cfg (snd (onRequest cfg m s)) (map (OnUpdate ?r) us)"
  let ?local = "\<lparr>msg_id = generated_id (idRef s), message = m, status = Local\<rparr>"
  let ?keep = "\<lambda>info. Some (msg_id info) \<noteq> loadingMsgId (requests ?s2 ! ?r)
                       \<and> Some (msg_id info) \<noteq> updatingMsgId (requests ?s2 ! ?r)"
  note tf = terminal_filter_any(1,2,3,4,5)[OF agent, where s=s and m=m and us=us]
  note tg = terminal_filter_any(6,7)[OF agent, where s=s and m=m]
  have s3: "getMessages (step cfg ?s2 (OnError ?r err)) = filter ?keep (getMessages s) @ [?local]"
    using tf(1,2) by (simp add: onError_def nofb onError_remove_fields)
  have iff: "(filter ?keep (getMessages s) @ [?local] = getMessages s @ [?local])
             = (\<forall>info \<in> set (getMessages s). ?keep info)"
    by (simp add: filter_id_conv)
  have fresh: "\<forall>info \<in> set (getMessages s). ?keep info" if f: "ids_fresh s"
  proof
    fix info assume i: "info \<in> set (getMessages s)"
    have a: "msg_id info \<noteq> generated_id (Suc (idRef s))"
      using f i by (simp add: ids_fresh_def)
    have "idRef s \<le> idRef (snd (onRequest cfg m s))"
      by (rule less_imp_le) (rule tg(2))
    with f i have b: "msg_id info \<noteq> generated_id (idRef (snd (onRequest cfg m s)))"
      by (simp add: ids_fresh_def)
    from a b tg(1) show "?keep info"
      by (auto simp add: tf(4) tf(5))
  qed
  have s2_eq: "run cfg (step cfg s (Request m)) (map (OnUpdate ?r) us) = ?s2" by simp
  show ?thesis
    unfolding Let_def s2_eq s3 iff
    using fresh by (simp add: filter_id_conv del: step.simps)
qed

theorem no_fallback_error_leaves_local_only_witness:
  "ids_fresh (useXChat cfg_stream) \<and>
   getMessages (step cfg_stream
     (run cfg_stream (step cfg_stream (useXChat cfg_stream) (Request (SString ''hi'')))
        (map (OnUpdate 0) [SString ''He'', SString ''Hello'']))
     (OnError 0 (JsError ''down'')))
   = [\<lparr>msg_id = IdString ''default_0'', message = SString ''Welcome'', status = Local\<rparr>,
      \<lparr>msg_id = IdString ''msg_0'', message = SString ''hi'', status = Local\<rparr>]"
proof -
  have cfg: "agent cfg_stream = Some XAgent" "requestFallback cfg_stream = None"
    by (simp_all add: cfg_stream_def)
  from no_fallback_error_leaves_local_only[OF cfg,
      of "useXChat cfg_stream" "SString ''hi''" "[SString ''He'', SString ''Hello'']"
         "JsError ''down''", unfolded Let_def]
  have "ids_fresh (useXChat cfg_stream) \<longrightarrow>
        getMessages (step cfg_stream
          (run cfg_stream (step cfg_stream (useXChat cfg_stream) (Request (SString ''hi'')))
             (map (OnUpdate (length (requests (useXChat cfg_stream)))) [SString ''He'', SString ''Hello'']))
          (OnError (length (requests (useXChat cfg_stream))) (JsError ''down'')))
        = getMessages (useXChat cfg_stream)
          @ [\<lparr>msg_id = generated_id (idRef (useXChat cfg_stream)), message = SString ''hi'',
              status = Local\<rparr>]"
    by blast
  with example_fresh(1) show ?thesis
    by (simp add: example_seed generated_id_literals del: step.simps run.simps)
qed

section \<open>A failed request with a static fallback\<close>

text \<open>
  Claim C4, as stated, at two inputs. At the static fallback payload \<^verbatim>\<open>''\<close>,
  \<^verbatim>\<open>if (requestFallback)\<close> is false, \<^verbatim>\<open>onError\<close> takes the removal branch, and the store
  ends with the seed and the local record only: no error record carries the fallback
  payload. At a seed that names the id \<^verbatim>\<open>msg_1\<close>, with a placeholder and the fallback
  \<^verbatim>\<open>'Sorry'\<close>, the placeholder gets that id too and \<^verbatim>\<open>onError\<close> removes the seeded
  record with it: a record that is neither placeholder nor live reply has changed.
\<close>

theorem static_fallback_counterexample:
  "getMessages (step cfg_empty_fallback
       (step cfg_empty_fallback (useXChat cfg_empty_fallback) (Request (SString ''hi'')))
       (OnError 0 (JsError ''down'')))
   = [\<lparr>msg_id = IdString ''default_0'', message = SString ''Welcome'', status = Local\<rparr>,
      \<lparr>msg_id = IdString ''msg_0'', message = SString ''hi'', status = Local\<rparr>]
   \<and> getMessages (useXChat cfg_taken_fallback) =
      [\<lparr>msg_id = IdString ''msg_1'', message = SString ''Welcome'', status = Local\<rparr>]
   \<and> getMessages (step cfg_taken_fallback
       (step cfg_taken_fallback (useXChat cfg_taken_fallback) (Request (SString ''hi'')))
       (OnError 0 (JsError ''down'')))
   = [\<lparr>msg_id = IdString ''msg_0'', message = SString ''hi'', status = Local\<rparr>,
      \<lparr>msg_id = IdString ''msg_2'', message = SString ''Sorry'', status = Error\<rparr>]"
  by (simp add: cfg_empty_fallback_def cfg_taken_fallback_def onRequest_def onError_def
        onError_remove_def onError_fallback_def Let_def
        split_def initial_messages_def show_nat_digits generated_id_literals)

text \<open>
  Claim C4, amended. With an agent and a static fallback payload that is truthy (not
  the empty string, 0 or false), after \<^verbatim>\<open>onRequest\<close>, any number of \<^verbatim>\<open>onUpdate\<close> events
  of that request and then \<^verbatim>\<open>onError\<close>, the store is the pre-request content without
  the records that carry the id of this request's placeholder or live-reply record,
  followed by the local record and one new error record with the fallback payload.
  That is the store before \<^verbatim>\<open>onError\<close> without the records of those two ids, followed
  by the error record, and no remaining record has one of the two ids. No other record
  is changed, the store being exactly the pre-request content, the local record and the
  error record, if and only if no pre-request record carries one of the two ids; that
  is the case whenever the store holds no id the counter has yet to hand out, and then
  the id of the error record was not in the store before.
\<close>

theorem static_fallback_error_record:
  assumes agent: "agent cfg = Some a" and fb: "requestFallback cfg = Some (Static v)"
    and tr: "truthy v"
  shows "(let r = length (requests s);
              s2 = run cfg (step cfg s (Request m)) (map (OnUpdate r) us);
              s3 = step cfg s2 (OnError r err);
              local = \<lparr>msg_id = generated_id (idRef s), message = m, status = Local\<rparr>;
              failed = \<lparr>msg_id = generated_id (idRef s2), message = v, status = Error\<rparr>;
              untouched = (\<lambda>info. Some (msg_id info) \<noteq> loadingMsgId (requests s2 ! r)
                                  \<and> Some (msg_id info) \<noteq> updatingMsgId (requests s2 ! r))
          in getMessages s3 = filter untouched (getMessages s) @ [local, failed]
           \<and> getMessages s3 = filter untouched (getMessages s2) @ [failed]
           \<and> (\<forall>info \<in> set (getMessages s3). untouched info)
           \<and> ((getMessages s3 = getMessages s @ [local, failed])
                = (\<forall>info \<in> set (getMessages s). untouched info))
           \<and> (ids_fresh s \<longrightarrow>
                 getMessages s3 = getMessages s @ [local, failed]
               \<and> generated_id (idRef s2) \<notin> msg_id ` set (getMessages s2)))"
proof -
  let ?r = "length (requests s)"
  let ?s2 = "run cfg (snd (onRequest cfg m s)) (map (OnUpdate ?r) us)"
  let ?local = "\<lparr>msg_id = generated_id (idRef s), message = m, status = Local\<rparr>"
  let ?failed = "\<lparr>msg_id = generated_id (idRef ?s2), message = v, status = Error\<rparr>"
  let ?keep = "\<lambda>info. Some (msg_id info) \<noteq> loadingMsgId (requests ?s2 ! ?r)
                       \<and> Some (msg_id info) \<noteq> updatingMsgId (requests ?s2 ! ?r)"
  note tf = terminal_filter_any(1,2,3,4,5)[OF agent, where s=s and m=m and us=us]
  note tg = terminal_filter_any(6,7)[OF agent, where s=s and m=m]
  have step_eq: "step cfg ?s2 (OnError ?r err) = onError cfg ?r err ?s2"
    using tf(2) by simp
  have s2_eq: "run cfg (step cfg s (Request m)) (map (OnUpdate ?r) us) = ?s2"
    by simp
  have c2: "getMessages (onError cfg ?r err ?s2) = filter ?keep (getMessages ?s2) @ [?failed]"
    using tr by (simp add: onError_def fb onError_fallback_fields)
  have c1: "getMessages (onError cfg ?r err ?s2) = filter ?keep (getMessages s) @ [?local, ?failed]"
    by (simp add: c2 tf(1))
  have c3: "\<forall>info \<in> set (getMessages (onError cfg ?r err ?s2)). ?keep info"
    unfolding c2 using tf(3)[of v Error] by simp
  have c4: "(getMessages (onError cfg ?r err ?s2) = getMessages s @ [?local, ?failed])
            = (\<forall>info \<in> set (getMessages s). ?keep info)"
    unfolding c1 by (simp add: filter_id_conv)
  have fresh: "\<forall>info \<in> set (getMessages s). ?keep info" if f: "ids_fresh s"
  proof
    fix info assume i: "info \<in> set (getMessages s)"
    have a: "msg_id info \<noteq> generated_id (Suc (idRef s))"
      using f i by (simp add: ids_fresh_def)
    have "idRef s \<le> idRef (snd (onRequest cfg m s))"
      by (rule less_imp_le) (rule tg(2))
    with f i have b: "msg_id info \<noteq> generated_id (idRef (snd (onRequest cfg m s)))"
      by (simp add: ids_fresh_def)
    from a b tg(1) show "?keep info"
      by (auto simp add: tf(4) tf(5))
  qed
  have c5: "ids_fresh s \<longrightarrow>
              getMessages (onError cfg ?r err ?s2) = getMessages s @ [?local, ?failed]
            \<and> generated_id (idRef ?s2) \<notin> msg_id ` set (getMessages ?s2)"
  proof
    assume f: "ids_fresh s"
    from id_step_fresh[OF onRequest_id_step f] have "ids_fresh (snd (onRequest cfg m s))" .
    from run_fresh[OF this] have "ids_fresh ?s2" .
    then have "\<forall>info \<in> set (getMessages ?s2). msg_id info \<noteq> generated_id (idRef ?s2)"
      by (simp add: ids_fresh_def)
    then have "generated_id (idRef ?s2) \<notin> msg_id ` set (getMessages ?s2)"
      by (auto simp del: generated_id_eq_iff)
    with fresh[OF f] c4 show "getMessages (onError cfg ?r err ?s2) = getMessages s @ [?local, ?failed]
            \<and> generated_id (idRef ?s2) \<notin> msg_id ` set (getMessages ?s2)"
      by simp
  qed
  show ?thesis
    unfolding Let_def s2_eq step_eq
    by (intro conjI c1 c2 c3 c4 c5)
qed

theorem static_fallback_error_record_witness:
  "ids_fresh (useXChat cfg_fallback) \<and>
   getMessages (step cfg_fallback
     (run cfg_fallback (step cfg_fallback (useXChat cfg_fallback) (Request (SString ''hi'')))
        (map (OnUpdate 0) [SString ''He'']))
     (OnError 0 (JsError ''down'')))
   = [\<lparr>msg_id = IdString ''default_0'', message = SString ''Welcome'', status = Local\<rparr>,
      \<lparr>msg_id = IdString ''msg_0'', message = SString ''hi'', status = Local\<rparr>,
      \<lparr>msg_id = IdString ''msg_3'', message = SString ''Sorry'', status = Error\<rparr>]"
proof -
  have cfg: "agent cfg_fallback = Some XAgent"
    "requestFallback cfg_fallback = Some (Static (SString ''Sorry''))"
    "requestPlaceholder cfg_fallback = Some (Static (SString ''Waiting...''))"
    by (simp_all add: cfg_fallback_def)
  have tr: "truthy (SString ''Sorry'')" by simp
  let ?s1 = "snd (onRequest cfg_fallback (SString ''hi'') (useXChat cfg_fallback))"
  note f = onRequest_placeholder[OF cfg(1) cfg(3), where m="SString ''hi''" and s="useXChat cfg_fallback"]
  have none: "\<forall>info \<in> set (getMessages ?s1). Some (msg_id info) \<noteq> updatingMsgId (requests ?s1 ! 0)"
    using f(6) by simp
  have id2: "idRef (run cfg_fallback
                (step cfg_fallback (useXChat cfg_fallback) (Request (SString ''hi'')))
                [OnUpdate 0 (SString ''He'')]) = Suc (Suc (Suc 0))"
    using f(3) by (simp add: onUpdate_def updateMessage_create(2)[OF none] f(2))
  from static_fallback_error_record[OF cfg(1,2) tr,
      of "useXChat cfg_fallback" "SString ''hi''" "[SString ''He'']" "JsError ''down''",
      unfolded Let_def]
  have "ids_fresh (useXChat cfg_fallback) \<longrightarrow>
        getMessages (step cfg_fallback
          (run cfg_fallback (step cfg_fallback (useXChat cfg_fallback) (Request (SString ''hi'')))
             (map (OnUpdate (length (requests (useXChat cfg_fallback)))) [SString ''He'']))
          (OnError (length (requests (useXChat cfg_fallback))) (JsError ''down'')))
        = getMessages (useXChat cfg_fallback)
          @ [\<lparr>msg_id = generated_id (idRef (useXChat cfg_fallback)), message = SString ''hi'',
              status = Local\<rparr>,
             \<lparr>msg_id = generated_id (idRef (run cfg_fallback
                  (step cfg_fallback (useXChat cfg_fallback) (Request (SString ''hi'')))
                  (map (OnUpdate (length (requests (useXChat cfg_fallback)))) [SString ''He'']))),
              message = SString ''Sorry'', status = Error\<rparr>]"
    by blast
  with example_fresh(2) show ?thesis
    by (simp add: example_seed id2 generated_id_literals del: step.simps run.simps)
qed

section \<open>A streamed reply\<close>

text \<open>
  Claim C1. With an agent and a placeholder policy configured, from any state, one
  \<^verbatim>\<open>onRequest\<close> followed by two \<^verbatim>\<open>onUpdate\<close> events and \<^verbatim>\<open>onSuccess\<close> of that request
  gives the following. A truthy policy makes \<^verbatim>\<open>onRequest\<close> append the placeholder record,
  and after the first update no record has the placeholder's id. After the first update
  the store is the pre-request records (those without the placeholder's id), the local
  record and one new loading record with the first payload, whose id the request keeps
  as its live id from then on. After the second update the record in that same place
  has that same id, the second payload and status loading; after \<^verbatim>\<open>onSuccess\<close> it has
  that same id, the final payload and status success; and at both snapshots every
  record with that id has that payload and status. When the store holds no id the
  counter has yet to hand out, the pre-request records are all there and unchanged.
\<close>

theorem streaming_reply_lifecycle:
  assumes agent: "agent cfg = Some a" and php: "requestPlaceholder cfg = Some p"
  shows "(let r = length (requests s);
              s1 = step cfg s (Request m);
              s2 = step cfg s1 (OnUpdate r u1);
              s3 = step cfg s2 (OnUpdate r u2);
              s4 = step cfg s3 (OnSuccess r u3);
              local = \<lparr>msg_id = generated_id (idRef s), message = m, status = Local\<rparr>;
              pending = generated_id (Suc (idRef s));
              live = generated_id (idRef s1);
              before = filter (\<lambda>info. Some (msg_id info) \<noteq> loadingMsgId (requests s1 ! r))
                         (getMessages s);
              overwrite = (\<lambda>u st info. if msg_id info = live
                                        then info\<lparr>message := u, status := st\<rparr> else info)
          in (policy_truthy p \<longrightarrow>
                 loadingMsgId (requests s1 ! r) = Some pending
               \<and> getMessages s1 = getMessages s @ [local,
                     \<lparr>msg_id = pending,
                      message = (case p of Computed f \<Rightarrow> f m (getFilteredMessages (getMessages s @ [local]))
                                 | Static v \<Rightarrow> v),
                      status = Loading\<rparr>]
               \<and> pending \<notin> msg_id ` set (getMessages s2))
           \<and> getMessages s2 = before @ [local, \<lparr>msg_id = live, message = u1, status = Loading\<rparr>]
           \<and> getMessages s3 = map (overwrite u2 Loading) before
                                @ [local, \<lparr>msg_id = live, message = u2, status = Loading\<rparr>]
           \<and> getMessages s4 = map (overwrite u3 Success) before
                                @ [local, \<lparr>msg_id = live, message = u3, status = Success\<rparr>]
           \<and> updatingMsgId (requests s2 ! r) = Some live
           \<and> updatingMsgId (requests s3 ! r) = Some live
           \<and> updatingMsgId (requests s4 ! r) = Some live
           \<and> (\<forall>x \<in> set (getMessages s3). msg_id x = live \<longrightarrow> message x = u2 \<and> status x = Loading)
           \<and> (\<forall>x \<in> set (getMessages s4). msg_id x = live \<longrightarrow> message x = u3 \<and> status x = Success)
           \<and> (ids_fresh s \<longrightarrow>
                 live \<notin> msg_id ` set (getMessages s1)
               \<and> getMessages s2 = getMessages s @ [local, \<lparr>msg_id = live, message = u1, status = Loading\<rparr>]
               \<and> getMessages s3 = getMessages s @ [local, \<lparr>msg_id = live, message = u2, status = Loading\<rparr>]
               \<and> getMessages s4 = getMessages s @ [local, \<lparr>msg_id = live, message = u3, status = Success\<rparr>]))"
proof -
  let ?r = "length (requests s)"
  let ?n = "idRef s"
  let ?s1 = "snd (onRequest cfg m s)"
  let ?s2 = "updateMessage ?r u1 Loading ?s1"
  let ?s3 = "updateMessage ?r u2 Loading ?s2"
  let ?s4 = "updateMessage ?r u3 Success ?s3"
  let ?local = "\<lparr>msg_id = generated_id ?n, message = m, status = Local\<rparr>"
  let ?pending = "generated_id (Suc ?n)"
  let ?live = "generated_id (idRef ?s1)"
  let ?before = "filter (\<lambda>info. Some (msg_id info) \<noteq> loadingMsgId (requests ?s1 ! ?r)) (getMessages s)"
  let ?ow = "\<lambda>u st info. if msg_id info = ?live then info\<lparr>message := u, status := st\<rparr> else info"
  from after_request[OF agent, where s=s and m=m] obtain ph where
    st1: "getMessages ?s1 = getMessages s @ [?local] @ ph"
    and ph1: "(ph = [] \<and> loadingMsgId (requests ?s1 ! ?r) = None) \<or>
             (\<exists>pm. ph = [\<lparr>msg_id = ?pending, message = pm, status = Loading\<rparr>]
                \<and> loadingMsgId (requests ?s1 ! ?r) = Some ?pending)"
    and upd1: "updatingMsgId (requests ?s1 ! ?r) = None"
    and id1: "idRef ?s1 = Suc ?n + length ph"
    and len1: "length (requests ?s1) = Suc ?r"
    by blast
  have live: "?n < idRef ?s1" by (simp add: id1)
  note e2 = first_event_any[OF st1 ph1 upd1, of u1 Loading]
  have st2: "getMessages ?s2 = (?before @ [?local]) @ [\<lparr>msg_id = ?live, message = u1, status = Loading\<rparr>]"
    by (simp add: e2(1))
  have upd2: "updatingMsgId (requests ?s2 ! ?r) = Some ?live"
    by (simp add: e2(3) len1)
  note e3 = later_event_any[OF st2 upd2, of u2 Loading]
  have upd3: "updatingMsgId (requests ?s3 ! ?r) = Some ?live"
    by (simp add: e3(3) upd2)
  note e4 = later_event_any[OF e3(1) upd3, of u3 Success]
  have upd4: "updatingMsgId (requests ?s4 ! ?r) = Some ?live"
    by (simp add: e4(3) upd3)
  have r1: "?r < length (requests ?s1)" by (simp add: len1)
  have r2: "?r < length (requests ?s2)" by (simp add: e2(3) len1)
  have r3: "?r < length (requests ?s3)" by (simp add: e3(3) r2)
  have steps: "step cfg s (Request m) = ?s1" "step cfg ?s1 (OnUpdate ?r u1) = ?s2"
    "step cfg ?s2 (OnUpdate ?r u2) = ?s3" "step cfg ?s3 (OnSuccess ?r u3) = ?s4"
    using r1 r2 r3 by (simp_all add: onUpdate_def onSuccess_def)
  have c2: "getMessages ?s2 = ?before @ [?local, \<lparr>msg_id = ?live, message = u1, status = Loading\<rparr>]"
    by (simp add: st2)
  have c3: "getMessages ?s3 = map (?ow u2 Loading) ?before
              @ [?local, \<lparr>msg_id = ?live, message = u2, status = Loading\<rparr>]"
    using live by (simp add: e3(1))
  have c4: "getMessages ?s4 = map (?ow u3 Success) ?before
              @ [?local, \<lparr>msg_id = ?live, message = u3, status = Success\<rparr>]"
    using live by (simp add: e4(1) comp_def)
  have p3: "\<forall>x \<in> set (getMessages ?s3). msg_id x = ?live \<longrightarrow> message x = u2 \<and> status x = Loading"
    unfolding c3 using live by auto
  have p4: "\<forall>x \<in> set (getMessages ?s4). msg_id x = ?live \<longrightarrow> message x = u3 \<and> status x = Success"
    unfolding c4 using live by auto
  have placeholder: "policy_truthy p \<longrightarrow>
        loadingMsgId (requests ?s1 ! ?r) = Some ?pending
      \<and> getMessages ?s1 = getMessages s @ [?local,
            \<lparr>msg_id = ?pending,
             message = (case p of Computed f \<Rightarrow> f m (getFilteredMessages (getMessages s @ [?local]))
                        | Static v \<Rightarrow> v),
             status = Loading\<rparr>]
      \<and> ?pending \<notin> msg_id ` set (getMessages ?s2)"
  proof
    assume tr: "policy_truthy p"
    note f = onRequest_placeholder[OF agent php tr, where m=m and s=s]
    have "idRef ?s1 = Suc (Suc ?n)" by (rule f(2))
    then have "\<forall>info \<in> set (getMessages ?s2). msg_id info \<noteq> ?pending"
      by (auto simp add: c2 f(5))
    then have "?pending \<notin> msg_id ` set (getMessages ?s2)"
      by (auto simp del: generated_id_eq_iff)
    with f(1) f(5) show "loadingMsgId (requests ?s1 ! ?r) = Some ?pending
      \<and> getMessages ?s1 = getMessages s @ [?local,
            \<lparr>msg_id = ?pending,
             message = (case p of Computed f \<Rightarrow> f m (getFilteredMessages (getMessages s @ [?local]))
                        | Static v \<Rightarrow> v),
             status = Loading\<rparr>]
      \<and> ?pending \<notin> msg_id ` set (getMessages ?s2)"
      by simp
  qed
  have fresh: "ids_fresh s \<longrightarrow>
        ?live \<notin> msg_id ` set (getMessages ?s1)
      \<and> getMessages ?s2 = getMessages s @ [?local, \<lparr>msg_id = ?live, message = u1, status = Loading\<rparr>]
      \<and> getMessages ?s3 = getMessages s @ [?local, \<lparr>msg_id = ?live, message = u2, status = Loading\<rparr>]
      \<and> getMessages ?s4 = getMessages s @ [?local, \<lparr>msg_id = ?live, message = u3, status = Success\<rparr>]"
  proof
    assume f: "ids_fresh s"
    then have old: "\<forall>info \<in> set (getMessages s). \<forall>k. ?n \<le> k \<longrightarrow> msg_id info \<noteq> generated_id k"
      by (simp add: ids_fresh_def)
    have b: "?before = getMessages s"
      using old ph1 by (intro filter_keep_all) auto
    have o: "map (?ow u st) (getMessages s) = getMessages s" for u st
      using old live by (intro map_keep_all) auto
    have "\<forall>info \<in> set (getMessages ?s1). msg_id info \<noteq> ?live"
      using old live ph1 by (auto simp add: st1 id1)
    then have "?live \<notin> msg_id ` set (getMessages ?s1)"
      by (auto simp del: generated_id_eq_iff)
    with c2 c3 c4 show "?live \<notin> msg_id ` set (getMessages ?s1)
      \<and> getMessages ?s2 = getMessages s @ [?local, \<lparr>msg_id = ?live, message = u1, status = Loading\<rparr>]
      \<and> getMessages ?s3 = getMessages s @ [?local, \<lparr>msg_id = ?live, message = u2, status = Loading\<rparr>]
      \<and> getMessages ?s4 = getMessages s @ [?local, \<lparr>msg_id = ?live, message = u3, status = Success\<rparr>]"
      unfolding b by (simp add: o)
  qed
  show ?thesis
    unfolding Let_def steps
    by (intro conjI placeholder c2 c3 c4 upd2 upd3 upd4 p3 p4 fresh)
qed

theorem streaming_reply_lifecycle_witness:
  "ids_fresh (useXChat cfg_stream) \<and>
   (let s1 = step cfg_stream (useXChat cfg_stream) (Request (SString ''hi''));
        s2 = step cfg_stream s1 (OnUpdate 0 (SString ''He''));
        s3 = step cfg_stream s2 (OnUpdate 0 (SString ''Hello''));
        s4 = step cfg_stream s3 (OnSuccess 0 (SString ''Hello!''))
    in getMessages s1 =
         [\<lparr>msg_id = IdString ''default_0'', message = SString ''Welcome'', status = Local\<rparr>,
          \<lparr>msg_id = IdString ''msg_0'', message = SString ''hi'', status = Local\<rparr>,
          \<lparr>msg_id = IdString ''msg_1'', message = SString ''Waiting...'', status = Loading\<rparr>]
     \<and> getMessages s2 =
         [\<lparr>msg_id = IdString ''default_0'', message = SString ''Welcome'', status = Local\<rparr>,
          \<lparr>msg_id = IdString ''msg_0'', message = SString ''hi'', status = Local\<rparr>,
          \<lparr>msg_id = IdString ''msg_2'', message = SString ''He'', status = Loading\<rparr>]
     \<and> getMessages s3 =
         [\<lparr>msg_id = IdString ''default_0'', message = SString ''Welcome'', status = Local\<rparr>,
          \<lparr>msg_id = IdString ''msg_0'', message = SString ''hi'', status = Local\<rparr>,
          \<lparr>msg_id = IdString ''msg_2'', message = SString ''Hello'', status = Loading\<rparr>]
     \<and> getMessages s4 =
         [\<lparr>msg_id = IdString ''default_0'', message = SString ''Welcome'', status = Local\<rparr>,
          \<lparr>msg_id = IdString ''msg_0'', message = SString ''hi'', status = Local\<rparr>,
          \<lparr>msg_id = IdString ''msg_2'', message = SString ''Hello!'', status = Success\<rparr>])"
proof -
  have cfg: "agent cfg_stream = Some XAgent"
    "requestPlaceholder cfg_stream = Some (Static (SString ''Waiting...''))"
    by (simp_all add: cfg_stream_def)
  have tr: "policy_truthy (Static (SString ''Waiting...'') :: RequestPlaceholderFn policy)"
    by simp
  have id1: "idRef (step cfg_stream (useXChat cfg_stream) (Request (SString ''hi''))) = Suc (Suc 0)"
    by (simp add: onRequest_placeholder(2)[OF cfg tr])
  note t = streaming_reply_lifecycle[OF cfg,
      of "useXChat cfg_stream" "SString ''hi''" "SString ''He''" "SString ''Hello''"
         "SString ''Hello!''", unfolded Let_def]
  from t have a: "policy_truthy (Static (SString ''Waiting...'') :: RequestPlaceholderFn policy) \<longrightarrow>
      getMessages (step cfg_stream (useXChat cfg_stream) (Request (SString ''hi''))) =
        getMessages (useXChat cfg_stream)
        @ [\<lparr>msg_id = generated_id (idRef (useXChat cfg_stream)), message = SString ''hi'', status = Local\<rparr>,
           \<lparr>msg_id = generated_id (Suc (idRef (useXChat cfg_stream))),
            message = SString ''Waiting...'', status = Loading\<rparr>]"
    by simp
  from t example_fresh(1) have b:
    "getMessages (step cfg_stream (step cfg_stream (useXChat cfg_stream) (Request (SString ''hi'')))
        (OnUpdate (length (requests (useXChat cfg_stream))) (SString ''He''))) =
       getMessages (useXChat cfg_stream)
       @ [\<lparr>msg_id = generated_id (idRef (useXChat cfg_stream)), message = SString ''hi'', status = Local\<rparr>,
          \<lparr>msg_id = generated_id (idRef (step cfg_stream (useXChat cfg_stream) (Request (SString ''hi'')))),
           message = SString ''He'', status = Loading\<rparr>]"
    "getMessages (step cfg_stream (step cfg_stream (step cfg_stream (useXChat cfg_stream) (Request (SString ''hi'')))
        (OnUpdate (length (requests (useXChat cfg_stream))) (SString ''He'')))
        (OnUpdate (length (requests (useXChat cfg_stream))) (SString ''Hello''))) =
       getMessages (useXChat cfg_stream)
       @ [\<lparr>msg_id = generated_id (idRef (useXChat cfg_stream)), message = SString ''hi'', status = Local\<rparr>,
          \<lparr>msg_id = generated_id (idRef (step cfg_stream (useXChat cfg_stream) (Request (SString ''hi'')))),
           message = SString ''Hello'', status = Loading\<rparr>]"
    "getMessages (step cfg_stream (step cfg_stream (step cfg_stream (step cfg_stream (useXChat cfg_stream) (Request (SString ''hi'')))
        (OnUpdate (length (requests (useXChat cfg_stream))) (SString ''He'')))
        (OnUpdate (length (requests (useXChat cfg_stream))) (SString ''Hello'')))
        (OnSuccess (length (requests (useXChat cfg_stream))) (SString ''Hello!''))) =
       getMessages (useXChat cfg_stream)
       @ [\<lparr>msg_id = generated_id (idRef (useXChat cfg_stream)), message = SString ''hi'', status = Local\<rparr>,
          \<lparr>msg_id = generated_id (idRef (step cfg_stream (useXChat cfg_stream) (Request (SString ''hi'')))),
           message = SString ''Hello!'', status = Success\<rparr>]"
    by blast+
  from a b tr show ?thesis
    unfolding Let_def
    by (simp add: example_fresh example_seed id1 generated_id_literals del: step.simps)
qed

section \<open>Uniqueness of identifiers\<close>

text \<open>
  Claim C2, as stated, at a seed that names its own id: \<^verbatim>\<open>defaultMessages\<close> may carry
  an \<^verbatim>\<open>id\<close>, and with the seed id \<^verbatim>\<open>msg_0\<close> the first \<^verbatim>\<open>onRequest\<close> appends a
  second record with the id \<^verbatim>\<open>msg_0\<close>. The ids of the seed itself are distinct.
\<close>

theorem ids_unique_counterexample:
  "ids_distinct (useXChat cfg_clash)
   \<and> getMessages (run cfg_clash (useXChat cfg_clash) [Request (SString ''hi'')]) =
       [\<lparr>msg_id = IdString ''msg_0'', message = SString ''Welcome'', status = Local\<rparr>,
        \<lparr>msg_id = IdString ''msg_0'', message = SString ''hi'', status = Local\<rparr>]
   \<and> \<not> ids_distinct (run cfg_clash (useXChat cfg_clash) [Request (SString ''hi'')])"
  by (simp add: ids_distinct_def cfg_clash_def onRequest_def Let_def split_def
        initial_messages_def generated_id_literals)

text \<open>
  Claim C2, amended. When the ids of the seeded store are pairwise distinct and none of
  them is a generated id \<^verbatim>\<open>msg_<k>\<close> (so whenever \<^verbatim>\<open>defaultMessages\<close> name no ids of
  their own), then for every sequence of \<^verbatim>\<open>onRequest\<close> calls and agent events the ids of
  the store are pairwise distinct at every snapshot; the counter never decreases; every
  record of a later snapshot either has the id of a record of the earlier snapshot or
  an id the counter handed out in between; no id handed out later is in the earlier
  store; and an id that has left the store never comes back.
\<close>

theorem ids_unique_along_runs:
  assumes d: "ids_distinct (useXChat cfg)" and f: "ids_fresh (useXChat cfg)"
  shows "(let sA = run cfg (useXChat cfg) evs1;
              sB = run cfg sA evs2;
              sC = run cfg sB evs3
          in ids_distinct sA
           \<and> idRef sA \<le> idRef sB
           \<and> (\<forall>y \<in> set (getMessages sB).
                 msg_id y \<in> msg_id ` set (getMessages sA)
                 \<or> (\<exists>k. msg_id y = generated_id k \<and> idRef sA \<le> k \<and> k < idRef sB))
           \<and> (\<forall>k. idRef sB \<le> k \<longrightarrow> generated_id k \<notin> msg_id ` set (getMessages sA))
           \<and> (\<forall>i. i \<in> msg_id ` set (getMessages sA) \<and> i \<notin> msg_id ` set (getMessages sB)
                 \<longrightarrow> i \<notin> msg_id ` set (getMessages sC)))"
proof -
  let ?sA = "run cfg (useXChat cfg) evs1"
  let ?sB = "run cfg ?sA evs2"
  let ?sC = "run cfg ?sB evs3"
  note a = run_ids[OF d f, of cfg evs1]
  from a have dA: "ids_distinct ?sA" and fA: "ids_fresh ?sA" by blast+
  note b = run_ids[OF dA fA, of cfg evs2]
  from b have dB: "ids_distinct ?sB" and fB: "ids_fresh ?sB" and le: "idRef ?sA \<le> idRef ?sB"
    by blast+
  note c = run_ids[OF dB fB, of cfg evs3]
  have origin: "\<forall>y \<in> set (getMessages ?sB).
                 msg_id y \<in> msg_id ` set (getMessages ?sA)
                 \<or> (\<exists>k. msg_id y = generated_id k \<and> idRef ?sA \<le> k \<and> k < idRef ?sB)"
    using b by (metis (no_types, lifting) image_eqI)
  have later: "\<forall>k. idRef ?sB \<le> k \<longrightarrow> generated_id k \<notin> msg_id ` set (getMessages ?sA)"
  proof (intro allI impI notI)
    fix k assume "idRef ?sB \<le> k" and "generated_id k \<in> msg_id ` set (getMessages ?sA)"
    then obtain x where "x \<in> set (getMessages ?sA)" "msg_id x = generated_id k" "idRef ?sA \<le> k"
      using le by auto
    with fA show False by (auto simp: ids_fresh_def)
  qed
  have gone: "\<forall>i. i \<in> msg_id ` set (getMessages ?sA) \<and> i \<notin> msg_id ` set (getMessages ?sB)
                 \<longrightarrow> i \<notin> msg_id ` set (getMessages ?sC)"
  proof (intro allI impI notI)
    fix i
    assume h: "i \<in> msg_id ` set (getMessages ?sA) \<and> i \<notin> msg_id ` set (getMessages ?sB)"
      and "i \<in> msg_id ` set (getMessages ?sC)"
    then obtain y where y: "y \<in> set (getMessages ?sC)" "msg_id y = i" by auto
    from c y(1) consider x where "x \<in> set (getMessages ?sB)" "msg_id x = msg_id y"
      | k where "msg_id y = generated_id k" "idRef ?sB \<le> k"
      by blast
    then show False
    proof cases
      case 1
      then have "i \<in> msg_id ` set (getMessages ?sB)"
        unfolding y(2)[symmetric] by (metis image_eqI)
      with h show False by blast
    next
      case 2
      with later h y(2) show False by auto
    qed
  qed
  show ?thesis
    unfolding Let_def using dA le origin later gone by (intro conjI)
qed

theorem ids_unique_along_runs_witness:
  "ids_distinct (useXChat cfg_stream) \<and> ids_fresh (useXChat cfg_stream)
   \<and> ids_distinct (run cfg_stream (useXChat cfg_stream)
        [Request (SString ''hi''), OnUpdate 0 (SString ''He''), Request (SString ''again'')])
   \<and> idRef (run cfg_stream (useXChat cfg_stream)
        [Request (SString ''hi''), OnUpdate 0 (SString ''He''), Request (SString ''again'')])
      \<le> idRef (run cfg_stream (run cfg_stream (useXChat cfg_stream)
        [Request (SString ''hi''), OnUpdate 0 (SString ''He''), Request (SString ''again'')])
        [OnError 0 (JsError ''down''), OnSuccess 1 (SString ''ok'')])"
proof -
  have d: "ids_distinct (useXChat cfg_stream)"
    by (rule useXChat_default_ids_fresh) (simp add: cfg_stream_def)
  from ids_unique_along_runs[OF d example_fresh(1),
      of "[Request (SString ''hi''), OnUpdate 0 (SString ''He''), Request (SString ''again'')]"
         "[OnError 0 (JsError ''down''), OnSuccess 1 (SString ''ok'')]" "[]", unfolded Let_def]
  show ?thesis
    using d example_fresh(1) by blast
qed

section \<open>The direction of a record's status\<close>




end
